theory Spec2Isabelle
  imports Main "HOL-Library.Sublist"
begin

section \<open>Go strings as byte sequences\<close>

text \<open>
  A Go string is a sequence of bytes; \<open>len\<close>, slicing, \<open>==\<close>, \<open>strings.Split\<close>,
  \<open>strings.HasPrefix\<close> and \<open>strings.Contains\<close> work on the bytes. A \<^typ>\<open>string\<close> of HOL is a
  list of 8-bit characters, so it is used as it is. The functions that decode UTF-8
  (\<open>strings.TrimSpace\<close> and a \<open>range\<close> loop over a string) are given the decoder of package
  \<open>unicode/utf8\<close>.
\<close>

definition byte :: "char \<Rightarrow> int" where
  "byte c = of_char c"

definition between :: "int \<Rightarrow> int \<Rightarrow> char \<Rightarrow> bool" where
  "between lo hi c = (lo \<le> byte c \<and> byte c \<le> hi)"

definition RuneError :: int where
  "RuneError = 0xFFFD"

text \<open>
  \<open>utf8.DecodeRuneInString\<close>: the code point and the width of the first rune. A byte that
  does not start a well-formed shortest encoding gives \<open>(RuneError, 1)\<close>; the empty string
  gives \<open>(RuneError, 0)\<close>. The second byte of a sequence is checked against the range that
  belongs to its first byte (no overlong forms, no surrogates, nothing above U+10FFFF).
\<close>

fun DecodeRuneInString :: "string \<Rightarrow> int \<times> nat" where
  "DecodeRuneInString [] = (RuneError, 0)"
| "DecodeRuneInString (b0 # bs) =
     (let x = byte b0 in
      if x < 0x80 then (x, 1)
      else if x < 0xC2 \<or> 0xF4 < x then (RuneError, 1)
      else if x \<le> 0xDF then
        (case bs of
           b1 # _ \<Rightarrow>
             if between 0x80 0xBF b1 then ((x mod 0x20) * 0x40 + byte b1 mod 0x40, 2)
             else (RuneError, 1)
         | _ \<Rightarrow> (RuneError, 1))
      else if x \<le> 0xEF then
        (case bs of
           b1 # b2 # _ \<Rightarrow>
             if between (if x = 0xE0 then 0xA0 else 0x80) (if x = 0xED then 0x9F else 0xBF) b1
                \<and> between 0x80 0xBF b2
             then ((x mod 0x10) * 0x1000 + (byte b1 mod 0x40) * 0x40 + byte b2 mod 0x40, 3)
             else (RuneError, 1)
         | _ \<Rightarrow> (RuneError, 1))
      else
        (case bs of
           b1 # b2 # b3 # _ \<Rightarrow>
             if between (if x = 0xF0 then 0x90 else 0x80) (if x = 0xF4 then 0x8F else 0xBF) b1
                \<and> between 0x80 0xBF b2 \<and> between 0x80 0xBF b3
             then ((x mod 0x08) * 0x40000 + (byte b1 mod 0x40) * 0x1000
                     + (byte b2 mod 0x40) * 0x40 + byte b3 mod 0x40, 4)
             else (RuneError, 1)
         | _ \<Rightarrow> (RuneError, 1)))"

text \<open>
  \<open>utf8.DecodeLastRuneInString\<close>: the last rune. From the last byte it walks back over at
  most three more bytes to a byte that can start a rune, decodes from there, and accepts the
  rune only when it ends exactly at the end of the string.
\<close>

definition RuneStart :: "char \<Rightarrow> bool" where
  "RuneStart c = (\<not> between 0x80 0xBF c)"

definition lastRuneStart :: "string \<Rightarrow> nat" where
  "lastRuneStart s =
     (let e = length s in
      if e < 2 then 0
      else if RuneStart (s ! (e - 2)) then e - 2
      else if e < 3 then 0
      else if RuneStart (s ! (e - 3)) then e - 3
      else if e < 4 then 0
      else if RuneStart (s ! (e - 4)) then e - 4
      else if e < 5 then 0
      else e - 5)"

definition DecodeLastRuneInString :: "string \<Rightarrow> int \<times> nat" where
  "DecodeLastRuneInString s =
     (if s = [] then (RuneError, 0)
      else if byte (last s) < 0x80 then (byte (last s), 1)
      else
        (let start = lastRuneStart s;
             (r, size) = DecodeRuneInString (drop start s)
         in if start + size \<noteq> length s then (RuneError, 1) else (r, size)))"

text \<open>\<open>utf8.AppendRune\<close>, as \<open>strings.Builder.WriteRune\<close> uses it.\<close>

definition EncodeRune :: "int \<Rightarrow> string" where
  "EncodeRune r =
     (if r \<le> 0x7F then [char_of r]
      else if r \<le> 0x7FF then [char_of (0xC0 + r div 0x40), char_of (0x80 + r mod 0x40)]
      else if 0x10FFFF < r \<or> (0xD800 \<le> r \<and> r \<le> 0xDFFF) then
        [char_of (0xEF::int), char_of (0xBF::int), char_of (0xBD::int)]
      else if r \<le> 0xFFFF then
        [char_of (0xE0 + r div 0x1000), char_of (0x80 + (r div 0x40) mod 0x40),
         char_of (0x80 + r mod 0x40)]
      else
        [char_of (0xF0 + r div 0x40000), char_of (0x80 + (r div 0x1000) mod 0x40),
         char_of (0x80 + (r div 0x40) mod 0x40), char_of (0x80 + r mod 0x40)])"

text \<open>\<open>unicode.IsSpace\<close>: the code points with the property \<open>White_Space\<close>.\<close>

definition IsSpace :: "int \<Rightarrow> bool" where
  "IsSpace r =
     ((0x09 \<le> r \<and> r \<le> 0x0D) \<or> r = 0x20 \<or> r = 0x85 \<or> r = 0xA0 \<or> r = 0x1680
      \<or> (0x2000 \<le> r \<and> r \<le> 0x200A) \<or> r = 0x2028 \<or> r = 0x2029 \<or> r = 0x202F
      \<or> r = 0x205F \<or> r = 0x3000)"

text \<open>
  \<open>strings.TrimSpace\<close> removes the white space runes at the start, then those at the end.
  Each recursion drops one rune at a time. A rune is at least one byte wide, so the slice
  \<open>s[:len(s)-w]\<close> is written as a prefix of \<open>butlast s\<close>.
\<close>

fun TrimLeftSpace :: "string \<Rightarrow> string" where
  "TrimLeftSpace [] = []"
| "TrimLeftSpace (b # bs) =
     (let (r, w) = DecodeRuneInString (b # bs)
      in if IsSpace r then TrimLeftSpace (drop (w - 1) bs) else b # bs)"

function TrimRightSpace :: "string \<Rightarrow> string" where
  "TrimRightSpace s =
     (if s = [] then []
      else (let (r, w) = DecodeLastRuneInString s
            in if IsSpace r then TrimRightSpace (take (length s - w) (butlast s)) else s))"
  by pat_completeness auto
termination
  by (relation "measure length") (auto simp: min_less_iff_disj)

definition TrimSpace :: "string \<Rightarrow> string" where
  "TrimSpace s = TrimRightSpace (TrimLeftSpace s)"

text \<open>
  \<open>strings.Trim(s, "\"")\<close>: with a cutset of one ASCII byte, the bytes equal to it are
  removed at the end and then at the start.
\<close>

definition Trim :: "string \<Rightarrow> char \<Rightarrow> string" where
  "Trim s c = dropWhile (\<lambda>x. x = c) (rev (dropWhile (\<lambda>x. x = c) (rev s)))"

text \<open>
  \<open>strings.Split(s, sep)\<close> for a separator of one byte: the pieces between the separators,
  one more than there are separators, so never the empty list.
\<close>

fun Split :: "string \<Rightarrow> char \<Rightarrow> string list" where
  "Split [] sep = [[]]"
| "Split (c # cs) sep =
     (if c = sep then [] # Split cs sep
      else (case Split cs sep of p # ps \<Rightarrow> (c # p) # ps | [] \<Rightarrow> [[c]]))"

definition HasPrefix :: "string \<Rightarrow> string \<Rightarrow> bool" where
  "HasPrefix s p = (take (length p) s = p)"

fun Contains :: "string \<Rightarrow> string \<Rightarrow> bool" where
  "Contains [] sub = (sub = [])"
| "Contains (c # cs) sub = (HasPrefix (c # cs) sub \<or> Contains cs sub)"

definition TrimPrefix :: "string \<Rightarrow> string \<Rightarrow> string" where
  "TrimPrefix s p = (if HasPrefix s p then drop (length p) s else s)"

fun Join :: "string list \<Rightarrow> string \<Rightarrow> string" where
  "Join [] sep = []"
| "Join [x] sep = x"
| "Join (x # y # ys) sep = x @ sep @ Join (y # ys) sep"

text \<open>\<open>fmt.Sprintf("%d", n)\<close>: the decimal digits of an integer, with a minus sign.\<close>

fun digits :: "nat \<Rightarrow> string" where
  "digits n = (if n < 10 then [char_of (48 + n)] else digits (n div 10) @ [char_of (48 + n mod 10)])"

definition itoa :: "int \<Rightarrow> string" where
  "itoa i = (if i < 0 then CHR ''-'' # digits (nat (- i)) else digits (nat i))"

section \<open>The SMS record and the errors\<close>

record SMS =
  Index :: int
  Status :: string
  Sender :: string
  Date :: string
  Message :: string

definition SMS_zero :: SMS where
  "SMS_zero = \<lparr>Index = 0, Status = [], Sender = [], Date = [], Message = []\<rparr>"

text \<open>
  One constructor for each error value the package builds, named after its message. An
  error that wraps another (\<open>%v\<close>) carries it. \<open>TransportError\<close> is the error returned by
  the serial port. \<open>PanicSliceBounds\<close> is the run-time panic of a slice expression whose
  lower bound is beyond the length of the string.
\<close>

datatype error =
    TransportError
  | InvalidSMSHeader
  | InsufficientFields
  | FailedToWriteCommand error
  | CommandTimeout
  | FailedToReadSMS error
  | FailedToReadNewSMS error
  | FailedToDeleteSMS error
  | FailedToParseSMS
  | FailedToWriteCMGS error
  | PromptTimeout string
  | FailedToSendMessage error
  | SMSFailed string
  | SMSTimeout
  | PanicSliceBounds

section \<open>The response parser\<close>

text \<open>
  \<open>splitRespectingQuotes\<close> (the helper of the test file): the loop runs over the runes of
  \<open>s\<close>. A double quote flips \<open>inQuotes\<close> and is kept; the separator outside quotes closes
  the current part; every other rune is written to the current part. A last part is added
  only when it is not empty.
\<close>

fun splitRespectingQuotes_loop ::
  "string \<Rightarrow> int \<Rightarrow> string list \<Rightarrow> string \<Rightarrow> bool \<Rightarrow> string list" where
  "splitRespectingQuotes_loop [] sep parts current inQuotes =
     (if length current > 0 then parts @ [current] else parts)"
| "splitRespectingQuotes_loop (b # bs) sep parts current inQuotes =
     (let (r, w) = DecodeRuneInString (b # bs);
          inQuotes' = (if r = 0x22 then \<not> inQuotes else inQuotes)
      in if r = sep \<and> \<not> inQuotes'
         then splitRespectingQuotes_loop (drop (w - 1) bs) sep (parts @ [current]) [] inQuotes'
         else splitRespectingQuotes_loop (drop (w - 1) bs) sep parts (current @ EncodeRune r)
                inQuotes')"

definition splitRespectingQuotes :: "string \<Rightarrow> int \<Rightarrow> string list" where
  "splitRespectingQuotes s sep = splitRespectingQuotes_loop s sep [] [] False"

definition parseSMSHeader :: "string \<Rightarrow> error + SMS" where
  "parseSMSHeader header =
     (if \<not> Contains header ''+CMGR:'' then Inl InvalidSMSHeader
      else
        (let content = TrimSpace (TrimPrefix header ''+CMGR:'');
             parts = splitRespectingQuotes content 0x2C
         in if length parts < 2 then Inl InsufficientFields
            else Inr (SMS_zero
              \<lparr>Status := Trim (parts ! 0) (CHR 0x22),
               Sender := Trim (parts ! 1) (CHR 0x22),
               Date := (if length parts \<ge> 4 then Trim (parts ! 3) (CHR 0x22)
                        else if length parts \<ge> 3 then Trim (parts ! 2) (CHR 0x22)
                        else [])\<rparr>)))"

text \<open>
  \<open>parseSMSList\<close>: the loop over \<open>lines[i]\<close> is a recursion over the lines from \<open>i\<close> on.
  A header line with four or more parts takes the next line as the message and steps over
  it. \<open>fmt.Sscanf\<close> is library code; \<open>sscanf format input\<close> stands for the integer it
  leaves in its argument (0 when it fails), and is a parameter.
\<close>

fun parseSMSList_loop :: "(string \<Rightarrow> string \<Rightarrow> int) \<Rightarrow> string list \<Rightarrow> SMS list" where
  "parseSMSList_loop sscanf [] = []"
| "parseSMSList_loop sscanf (l # rest) =
     (let line = TrimSpace l in
      if HasPrefix line ''+CMGL:'' then
        (let parts = Split line (CHR '','') in
         if length parts \<ge> 4 then
           (let sms = SMS_zero
                  \<lparr>Index := sscanf ''+CMGL: %d'' (parts ! 0),
                   Status := Trim (parts ! 1) (CHR 0x22),
                   Sender := Trim (parts ! 2) (CHR 0x22),
                   Date := Trim (parts ! 3) (CHR 0x22)\<rparr>
            in case rest of
                 [] \<Rightarrow> [sms]
               | m # rest' \<Rightarrow> sms\<lparr>Message := TrimSpace m\<rparr> # parseSMSList_loop sscanf rest')
         else parseSMSList_loop sscanf rest)
      else parseSMSList_loop sscanf rest)"

definition parseSMSList :: "(string \<Rightarrow> string \<Rightarrow> int) \<Rightarrow> string \<Rightarrow> SMS list" where
  "parseSMSList sscanf response = parseSMSList_loop sscanf (Split response (CHR 0x0A))"

text \<open>
  The second half of \<open>readSMSByIndex\<close>, from \<open>strings.Split(response, "\n")\<close> on: the first
  line with the prefix \<open>+CMGR:\<close> and three or more parts is the header. \<open>parts[0][7:]\<close>
  panics when \<open>parts[0]\<close> has fewer than seven bytes.
\<close>

fun readSMSByIndex_loop :: "int \<Rightarrow> string list \<Rightarrow> error + SMS" where
  "readSMSByIndex_loop index [] = Inl FailedToParseSMS"
| "readSMSByIndex_loop index (l # rest) =
     (let line = TrimSpace l in
      if HasPrefix line ''+CMGR:'' then
        (let parts = Split line (CHR '','') in
         if length parts \<ge> 3 then
           (if length (parts ! 0) < 7 then Inl PanicSliceBounds
            else Inr (SMS_zero
              \<lparr>Index := index,
               Status := Trim (drop 7 (parts ! 0)) (CHR 0x22),
               Sender := Trim (parts ! 1) (CHR 0x22),
               Date := Trim (parts ! 2) (CHR 0x22),
               Message := (case rest of [] \<Rightarrow> [] | m # _ \<Rightarrow> TrimSpace m)\<rparr>))
         else readSMSByIndex_loop index rest)
      else readSMSByIndex_loop index rest)"

definition readSMSByIndex_parse :: "int \<Rightarrow> string \<Rightarrow> error + SMS" where
  "readSMSByIndex_parse index response = readSMSByIndex_loop index (Split response (CHR 0x0A))"

section \<open>The handler and its environment\<close>

text \<open>
  The serial port, the buffered reader on it and the clock are outside the package. The
  state \<open>world\<close> holds the field \<open>listening\<close> of the handler, the clock in milliseconds,
  and for each outside call the results that are still to come:
  \<^item> \<open>write_errs\<close>: for each \<open>port.Write\<close>, whether it returns an error (none left: no
    error);
  \<^item> \<open>reader_in\<close>: for each \<open>reader.ReadString('\n')\<close>, the line it returns, or \<open>Fail\<close> when
    it returns an error; \<open>Expired\<close> stands for the timer of the caller firing before the next
    read completes (none left: the read never completes, and the timer fires). An entry
    \<open>Wait d\<close> before a result says that the read stays blocked for \<open>d\<close> milliseconds more
    before it returns; a result with no \<open>Wait\<close> before it is there at once;
  \<^item> \<open>port_in\<close>: for each \<open>port.Read(buf)\<close>, the time it takes, the bytes it delivers
    (\<open>Read\<close> returns at most \<open>len(buf)\<close> bytes, so a longer entry is cut to that length)
    and whether it returns an error (none left: no byte and no error after the read timeout
    of 100 ms).
  \<open>log\<close> records, in order, the channel operations of the calling goroutine, the writes to
  the port and the reads, with the waits of the reader. The loop that empties the buffer of the reader before a command
  takes nothing from \<open>reader_in\<close>: the results listed there are those of the reads made
  after it.
\<close>

datatype chan = pauseChan | resumeChan

datatype read_event = Line string | Fail | Expired | Wait nat

datatype event =
    ChanSend chan
  | ChanRecv chan
  | PortWrite string
  | PortWriteFailed string
  | ReaderRead read_event
  | PortRead string bool

record world =
  listening :: bool
  clock :: int
  log :: "event list"
  write_errs :: "bool list"
  reader_in :: "read_event list"
  port_in :: "(nat \<times> string \<times> bool) list"

definition emit :: "event list \<Rightarrow> world \<Rightarrow> world" where
  "emit es w = w\<lparr>log := log w @ es\<rparr>"

text \<open>
  \<open>pauseListener\<close> and \<open>resumeListener\<close>, as called from a goroutine other than the listener:
  the listener receives the pause request and acknowledges it. The call that the listener
  goroutine makes itself, when it handles a \<open>+CMTI:\<close> notification, is not of this kind; the
  section on the handshake follows it.
\<close>

definition pauseListener :: "world \<Rightarrow> world" where
  "pauseListener w =
     (if listening w then emit [ChanSend pauseChan, ChanRecv resumeChan] w else w)"

definition resumeListener :: "world \<Rightarrow> world" where
  "resumeListener w = (if listening w then emit [ChanSend resumeChan] w else w)"

definition port_Write :: "string \<Rightarrow> world \<Rightarrow> bool \<times> world" where
  "port_Write data w =
     (case write_errs w of
        [] \<Rightarrow> (False, emit [PortWrite data] w)
      | e # es \<Rightarrow>
          (e, emit [if e then PortWriteFailed data else PortWrite data] (w\<lparr>write_errs := es\<rparr>)))"

definition port_Read :: "nat \<Rightarrow> world \<Rightarrow> string \<times> bool \<times> world" where
  "port_Read k w =
     (case port_in w of
        [] \<Rightarrow> ([], False, emit [PortRead [] False] (w\<lparr>clock := clock w + 100\<rparr>))
      | (d, data, err) # rest \<Rightarrow>
          (take k data, err,
           emit [PortRead (take k data) err] (w\<lparr>clock := clock w + int d, port_in := rest\<rparr>)))"

definition sleep :: "int \<Rightarrow> world \<Rightarrow> world" where
  "sleep ms w = w\<lparr>clock := clock w + ms\<rparr>"

section \<open>The command transaction\<close>

text \<open>
  The reading goroutine of \<open>sendATCommand\<close> and the \<open>select\<close> that waits for it. The
  function runs the loop on the results of the reads; it returns the text in \<open>response\<close>,
  whether \<open>done\<close> was signalled (otherwise the timer fired first), and the results left.
  The goroutine knows nothing of the time: while a read is blocked it does nothing.
\<close>

definition isTerminal :: "string \<Rightarrow> bool" where
  "isTerminal line =
     (Contains line ''OK'' \<or> Contains line ''ERROR'' \<or> Contains line ''+CME ERROR'')"

fun readResponse ::
  "string \<Rightarrow> nat \<Rightarrow> string \<Rightarrow> read_event list \<Rightarrow> string \<times> bool \<times> read_event list" where
  "readResponse command consecutiveEmpty response [] = (response, False, [])"
| "readResponse command consecutiveEmpty response (Expired # rs) = (response, False, rs)"
| "readResponse command consecutiveEmpty response (Wait d # rs) =
     readResponse command consecutiveEmpty response rs"
| "readResponse command consecutiveEmpty response (Fail # rs) = (response, True, rs)"
| "readResponse command consecutiveEmpty response (Line raw # rs) =
     (let line = TrimSpace raw in
      if line = command then readResponse command consecutiveEmpty response rs
      else if line = [] then
        (if consecutiveEmpty + 1 > 3 then (response, True, rs)
         else readResponse command (consecutiveEmpty + 1) response rs)
      else
        (let response' = response @ line @ [CHR 0x0A] in
         if isTerminal line then (response', True, rs)
         else readResponse command 0 response' rs))"

text \<open>
  \<open>timeout := time.After(10 * time.Second)\<close> and the \<open>select\<close> on \<open>done\<close> and \<open>timeout\<close>: the
  goroutine can signal \<open>done\<close> only with a read that returns before the timer fires.
  \<open>waited rs\<close> is the time the entries \<open>rs\<close> keep the reader blocked, and
  \<open>read_before_timer left rs\<close> is the part of the script whose reads return while the timer
  has still \<open>left\<close> milliseconds to go; a read that returns at the very moment the timer
  fires counts as late (the \<open>select\<close> may then take either branch). When \<open>done\<close> is
  signalled the call goes on at the time of that read, otherwise at the time the timer fires.
  The goroutine is not stopped by the timer: the state returned is the one at that moment,
  with the read in progress still in the script.
\<close>

fun waited :: "read_event list \<Rightarrow> int" where
  "waited [] = 0"
| "waited (Wait d # rs) = int d + waited rs"
| "waited (r # rs) = waited rs"

fun read_before_timer :: "int \<Rightarrow> read_event list \<Rightarrow> read_event list" where
  "read_before_timer left [] = []"
| "read_before_timer left (Wait d # rs) =
     (if left \<le> int d then [] else Wait d # read_before_timer (left - int d) rs)"
| "read_before_timer left (r # rs) = r # read_before_timer left rs"

definition reader_run ::
  "string \<Rightarrow> world \<Rightarrow> string \<times> bool \<times> world" where
  "reader_run command w =
     (let script = read_before_timer 10000 (reader_in w);
          (response, done, rest) = readResponse command 0 [] script;
          consumed = take (length script - length rest) script;
          elapsed = (if done then waited consumed else 10000)
      in (response, done,
          emit (map ReaderRead consumed)
            (w\<lparr>reader_in := drop (length consumed) (reader_in w),
               clock := clock w + elapsed\<rparr>)))"

text \<open>
  \<open>sendATCommand\<close>. The deferred \<open>resumeListener\<close> runs on every return, so it is applied
  to the state of each branch.
\<close>

definition sendATCommand :: "string \<Rightarrow> world \<Rightarrow> string \<times> error option \<times> world" where
  "sendATCommand command w =
     (let w1 = pauseListener w;
          (err, w2) = port_Write (command @ [CHR 0x0D, CHR 0x0A]) w1
      in if err then ([], Some (FailedToWriteCommand TransportError), resumeListener w2)
         else
           (let (response, done, w3) = reader_run command w2
            in if done then (TrimSpace response, None, resumeListener w3)
               else (TrimSpace response, Some CommandTimeout, resumeListener w3)))"

definition GetModemInfo :: "world \<Rightarrow> string \<times> error option \<times> world" where
  "GetModemInfo w = sendATCommand ''ATI'' w"

definition GetSignalStrength :: "world \<Rightarrow> string \<times> error option \<times> world" where
  "GetSignalStrength w = sendATCommand ''AT+CSQ'' w"

definition ReadSMS :: "(string \<Rightarrow> string \<Rightarrow> int) \<Rightarrow> world \<Rightarrow> (error + SMS list) \<times> world" where
  "ReadSMS sscanf w =
     (case sendATCommand ''AT+CMGL=\"ALL\"'' w of
        (response, Some err, w') \<Rightarrow> (Inl (FailedToReadSMS err), w')
      | (response, None, w') \<Rightarrow> (Inr (parseSMSList sscanf response), w'))"

definition ReadNewSMS :: "(string \<Rightarrow> string \<Rightarrow> int) \<Rightarrow> world \<Rightarrow> (error + SMS list) \<times> world" where
  "ReadNewSMS sscanf w =
     (case sendATCommand ''AT+CMGL=\"REC UNREAD\"'' w of
        (response, Some err, w') \<Rightarrow> (Inl (FailedToReadNewSMS err), w')
      | (response, None, w') \<Rightarrow> (Inr (parseSMSList sscanf response), w'))"

definition DeleteSMS :: "int \<Rightarrow> world \<Rightarrow> error option \<times> world" where
  "DeleteSMS index w =
     (case sendATCommand (''AT+CMGD='' @ itoa index) w of
        (response, Some err, w') \<Rightarrow> (Some (FailedToDeleteSMS err), w')
      | (response, None, w') \<Rightarrow> (None, w'))"

definition readSMSByIndex :: "int \<Rightarrow> world \<Rightarrow> (error + SMS) \<times> world" where
  "readSMSByIndex index w =
     (case sendATCommand (''AT+CMGR='' @ itoa index) w of
        (response, Some err, w') \<Rightarrow> (Inl (FailedToReadSMS err), w')
      | (response, None, w') \<Rightarrow> (readSMSByIndex_parse index response, w'))"

section \<open>Notifications\<close>

definition isATResponse :: "string \<Rightarrow> bool" where
  "isATResponse line =
     (if HasPrefix line ''AT+'' \<or> line = ''AT'' then True
      else if line = ''OK'' \<or> line = ''ERROR'' then True
      else if HasPrefix line ''+CMGF:'' \<or> HasPrefix line ''+CSCS:'' \<or> HasPrefix line ''+CPMS:''
              \<or> HasPrefix line ''+CNMI:'' \<or> HasPrefix line ''+CSQ:'' then True
      else False)"

text \<open>
  The loop of \<open>handleCMTMessage\<close> that collects the lines of the message. Each round first
  looks at the timer of two seconds (\<open>Expired\<close>, or no result left), then reads a line. The
  result is the record the callback is called with, if it is called, and the results left.
  The timer is looked at only between two reads, so a read that has begun runs to its end:
  \<open>begun_before_timer left rs\<close> is the part of the script up to the end of the first read
  that returns when the timer, with \<open>left\<close> milliseconds to go, has fired.
\<close>

definition isNextNotification :: "string \<Rightarrow> bool" where
  "isNextNotification line =
     (HasPrefix line ''+CMT:'' \<or> HasPrefix line ''+CMTI:'' \<or> HasPrefix line ''OK''
      \<or> HasPrefix line ''ERROR'' \<or> HasPrefix line ''AT+'')"

definition deliver :: "SMS \<Rightarrow> string list \<Rightarrow> SMS option" where
  "deliver sms messageLines =
     (if length messageLines > 0 then Some (sms\<lparr>Message := Join messageLines [CHR 0x0A]\<rparr>)
      else None)"

fun handleCMTMessage_loop ::
  "SMS \<Rightarrow> string list \<Rightarrow> read_event list \<Rightarrow> SMS option \<times> read_event list" where
  "handleCMTMessage_loop sms messageLines [] = (deliver sms messageLines, [])"
| "handleCMTMessage_loop sms messageLines (Expired # rs) = (deliver sms messageLines, rs)"
| "handleCMTMessage_loop sms messageLines (Wait d # rs) = handleCMTMessage_loop sms messageLines rs"
| "handleCMTMessage_loop sms messageLines (Fail # rs) = handleCMTMessage_loop sms messageLines rs"
| "handleCMTMessage_loop sms messageLines (Line raw # rs) =
     (let line = TrimSpace raw in
      if line = [] \<and> length messageLines = 0 then handleCMTMessage_loop sms messageLines rs
      else if isNextNotification line then (deliver sms messageLines, rs)
      else if line \<noteq> [] then handleCMTMessage_loop sms (messageLines @ [line]) rs
      else if length messageLines > 0
        then (Some (sms\<lparr>Message := Join messageLines [CHR 0x0A]\<rparr>), rs)
      else handleCMTMessage_loop sms messageLines rs)"

fun begun_before_timer :: "int \<Rightarrow> read_event list \<Rightarrow> read_event list" where
  "begun_before_timer left [] = []"
| "begun_before_timer left (Wait d # rs) = Wait d # begun_before_timer (left - int d) rs"
| "begun_before_timer left (r # rs) = r # (if left \<le> 0 then [] else begun_before_timer left rs)"

definition handleCMTMessage :: "string \<Rightarrow> world \<Rightarrow> SMS option \<times> world" where
  "handleCMTMessage line w =
     (let parts = Split line (CHR '','') in
      if length parts < 3 then (None, w)
      else
        (let senderPart = parts ! 0 in
         if length senderPart > 6 then
           (let sms = SMS_zero
                  \<lparr>Sender := Trim (drop 6 senderPart) (CHR 0x22),
                   Date := (if length parts \<ge> 3 then Trim (parts ! 2) (CHR 0x22) else [])\<rparr>;
                script = begun_before_timer 2000 (reader_in w);
                (called, rest) = handleCMTMessage_loop sms [] script;
                consumed = take (length script - length rest) script
            in (called,
                emit (map ReaderRead consumed)
                  (w\<lparr>reader_in := drop (length consumed) (reader_in w),
                     clock := clock w + waited consumed\<rparr>)))
         else (None, w)))"

section \<open>Sending a message\<close>

text \<open>
  The two polling loops of \<open>SendSMS\<close>. \<open>time.Since(startTime)\<close> is the clock minus the start
  time. The first loop reads one byte at a time until the buffer holds \<open>>\<close> or ten seconds
  have passed; the second reads up to 128 bytes at a time for thirty seconds.
\<close>

function promptLoop :: "int \<Rightarrow> string \<Rightarrow> bool \<Rightarrow> world \<Rightarrow> string \<times> bool \<times> world" where
  "promptLoop startTime promptBuffer promptReceived w =
     (if \<not> promptReceived \<and> clock w - startTime < 10000 then
        (let (buf, err, w') = port_Read 1 w in
         if \<not> err \<and> length buf > 0 then
           (let promptBuffer' = promptBuffer @ [hd buf] in
            if Contains promptBuffer' ''>'' then promptLoop startTime promptBuffer' True w'
            else promptLoop startTime promptBuffer' promptReceived w')
         else promptLoop startTime promptBuffer promptReceived w')
      else (promptBuffer, promptReceived, w))"
  by pat_completeness auto
termination
proof -
  have R: "length (port_in w') < length (port_in w)
           \<or> (port_in w' = [] \<and> port_in w = [] \<and> clock w' = clock w + 100)"
    if "(b, e, w') = port_Read k w" for b e w' k w
    using that by (auto simp: port_Read_def emit_def split: list.splits)
  show ?thesis
    by (relation "measures [\<lambda>(st, pb, pr, w). length (port_in w),
                            \<lambda>(st, pb, pr, w). nat (st + 10000 - clock w)]")
       (auto dest!: R)
qed

function responseLoop :: "int \<Rightarrow> string \<Rightarrow> world \<Rightarrow> error option \<times> world" where
  "responseLoop startTime responseBuffer w =
     (if clock w - startTime < 30000 then
        (let (buf, err, w') = port_Read 128 w in
         if \<not> err \<and> length buf > 0 then
           (let response = responseBuffer @ buf in
            if (Contains response ''+CMGS:'' \<or> Contains response ''OK'')
               \<and> Contains response ''+CMGS:'' then (None, w')
            else if Contains response ''ERROR'' \<or> Contains response ''+CMS ERROR''
              then (Some (SMSFailed response), w')
            else responseLoop startTime response w')
         else responseLoop startTime responseBuffer w')
      else (Some SMSTimeout, w))"
  by pat_completeness auto
termination
proof -
  have R: "length (port_in w') < length (port_in w)
           \<or> (port_in w' = [] \<and> port_in w = [] \<and> clock w' = clock w + 100)"
    if "(b, e, w') = port_Read k w" for b e w' k w
    using that by (auto simp: port_Read_def emit_def split: list.splits)
  show ?thesis
    by (relation "measures [\<lambda>(st, rb, w). length (port_in w),
                            \<lambda>(st, rb, w). nat (st + 30000 - clock w)]")
       (auto dest!: R)
qed

definition SendSMS :: "string \<Rightarrow> string \<Rightarrow> world \<Rightarrow> error option \<times> world" where
  "SendSMS phoneNumber message w =
     (let w1 = sleep 100 (pauseListener w);
          cmd = ''AT+CMGS=\"'' @ phoneNumber @ ''\"'';
          (err, w2) = port_Write (cmd @ [CHR 0x0D]) w1
      in if err then (Some (FailedToWriteCMGS TransportError), resumeListener w2)
         else
           (let (promptBuffer, promptReceived, w3) = promptLoop (clock w2) [] False w2
            in if \<not> promptReceived
               then (Some (PromptTimeout promptBuffer), resumeListener w3)
               else
                 (let (err, w4) = port_Write (message @ [CHR 0x1A]) (sleep 100 w3)
                  in if err then (Some (FailedToSendMessage TransportError), resumeListener w4)
                     else
                       (let (res, w5) = responseLoop (clock w4) [] w4
                        in (res, resumeListener w5)))))"

section \<open>The pause and resume handshake between goroutines\<close>

text \<open>
  \<open>pauseChan\<close> and \<open>resumeChan\<close> are made by \<open>make(chan bool)\<close> in \<open>NewSMSHandler\<close>: they
  have no buffer, so a send and a receive on a channel happen together, in two different
  goroutines. The model keeps, for each goroutine, the place in the code where it is, and
  only the channel operations matter.

  The listener goroutine of \<open>ListenForIncomingSMS\<close>:
  \<^item> \<open>L_select\<close>: the \<open>select\<close> of the loop, which receives from \<open>pauseChan\<close> or takes the
    default branch (\<open>L_poll\<close>);
  \<^item> \<open>L_ack\<close>: \<open>s.resumeChan <- true\<close>, then \<open>L_wait_resume\<close>: \<open><-s.resumeChan\<close>;
  \<^item> \<open>L_poll\<close>: the default branch reads and classifies a line; a line \<open>+CMTI:\<close> leads by
    \<open>handleCMTIMessage\<close>, \<open>readSMSByIndex\<close> and \<open>sendATCommand\<close> to \<open>pauseListener\<close>, where
    \<open>s.listening\<close> is true;
  \<^item> \<open>L_cmti_pause\<close>: \<open>s.pauseChan <- true\<close> of that call, \<open>L_cmti_wait_ack\<close>: its
    \<open><-s.resumeChan\<close>, \<open>L_cmti_transaction\<close>: the command AT+CMGR, \<open>L_cmti_resume\<close>: the
    deferred \<open>s.resumeChan <- true\<close>;
  \<^item> \<open>L_exit\<close>: the goroutine has ended (a panic in the callback, recovered).

  Any other goroutine calls the public operations: \<open>C_pause\<close>, \<open>C_wait_ack\<close> and \<open>C_resume\<close>
  are the three channel operations of \<open>pauseListener\<close> and \<open>resumeListener\<close> around
  \<open>C_transaction\<close>. A call that read \<open>s.listening\<close> as false goes on without them.
\<close>

datatype lpc =
    L_select | L_ack | L_wait_resume | L_poll
  | L_cmti_pause | L_cmti_wait_ack | L_cmti_transaction | L_cmti_resume | L_exit

datatype cpc = C_idle | C_pause | C_wait_ack | C_transaction | C_resume

datatype dir = Send | Recv

fun l_op :: "lpc \<Rightarrow> (dir \<times> chan \<times> lpc) option" where
  "l_op L_select = Some (Recv, pauseChan, L_ack)"
| "l_op L_ack = Some (Send, resumeChan, L_wait_resume)"
| "l_op L_wait_resume = Some (Recv, resumeChan, L_select)"
| "l_op L_cmti_pause = Some (Send, pauseChan, L_cmti_wait_ack)"
| "l_op L_cmti_wait_ack = Some (Recv, resumeChan, L_cmti_transaction)"
| "l_op L_cmti_resume = Some (Send, resumeChan, L_select)"
| "l_op _ = None"

fun l_tau :: "lpc \<Rightarrow> lpc list" where
  "l_tau L_select = [L_poll]"
| "l_tau L_poll = [L_select, L_cmti_pause, L_exit]"
| "l_tau L_cmti_transaction = [L_cmti_resume]"
| "l_tau _ = []"

fun c_op :: "cpc \<Rightarrow> (dir \<times> chan \<times> cpc) option" where
  "c_op C_pause = Some (Send, pauseChan, C_wait_ack)"
| "c_op C_wait_ack = Some (Recv, resumeChan, C_transaction)"
| "c_op C_resume = Some (Send, resumeChan, C_idle)"
| "c_op _ = None"

fun c_tau :: "cpc \<Rightarrow> cpc list" where
  "c_tau C_idle = [C_pause, C_transaction]"
| "c_tau C_transaction = [C_resume, C_idle]"
| "c_tau _ = []"

record sys =
  listener :: lpc
  callers :: "cpc list"

inductive step :: "sys \<Rightarrow> sys \<Rightarrow> bool" where
  listener_internal:
    "p' \<in> set (l_tau (listener s)) \<Longrightarrow> step s (s\<lparr>listener := p'\<rparr>)"
| caller_internal:
    "i < length (callers s) \<Longrightarrow> q' \<in> set (c_tau (callers s ! i))
     \<Longrightarrow> step s (s\<lparr>callers := (callers s)[i := q']\<rparr>)"
| listener_caller:
    "i < length (callers s) \<Longrightarrow> l_op (listener s) = Some (d, c, p')
     \<Longrightarrow> c_op (callers s ! i) = Some (d', c, q') \<Longrightarrow> d \<noteq> d'
     \<Longrightarrow> step s \<lparr>listener = p', callers = (callers s)[i := q']\<rparr>"
| caller_caller:
    "i < length (callers s) \<Longrightarrow> j < length (callers s) \<Longrightarrow> i \<noteq> j
     \<Longrightarrow> c_op (callers s ! i) = Some (Send, c, q1) \<Longrightarrow> c_op (callers s ! j) = Some (Recv, c, q2)
     \<Longrightarrow> step s (s\<lparr>callers := (callers s)[i := q1, j := q2]\<rparr>)"

definition started :: "nat \<Rightarrow> sys" where
  "started n = \<lparr>listener = L_select, callers = replicate n C_idle\<rparr>"

section \<open>The reading rules of a command, in the words of the specification\<close>

text \<open>
  The rules of the specification for the lines of a response, to be compared with
  \<open>readResponse\<close>. A line equal to the command text is an echo and is discarded:
  \<open>without_echo\<close> gives the trimmed lines that remain. Among these, the reading stops at a
  line (\<open>stops_at\<close>) that contains a terminal token, or that ends a run of more than three
  blank lines (\<open>blank_run\<close> counts the blank lines in a row up to a line). The text
  (\<open>kept_text\<close>) is made of the lines that are not empty, each followed by a newline.
\<close>

definition without_echo :: "string \<Rightarrow> string list \<Rightarrow> string list" where
  "without_echo command raw = filter (\<lambda>l. l \<noteq> command) (map TrimSpace raw)"

definition blank_run :: "string list \<Rightarrow> nat \<Rightarrow> nat" where
  "blank_run ls i = length (takeWhile (\<lambda>l. l = []) (rev (take (Suc i) ls)))"

definition stops_at :: "string list \<Rightarrow> nat \<Rightarrow> bool" where
  "stops_at ls i = (isTerminal (ls ! i) \<or> blank_run ls i > 3)"

definition kept_text :: "string list \<Rightarrow> string" where
  "kept_text ls = concat (map (\<lambda>l. l @ [CHR 0x0A]) (filter (\<lambda>l. l \<noteq> []) ls))"

text \<open>
  The same rules, line by line: the text, whether the reading stopped, and the lines that
  were not read. \<open>blanks\<close> is the number of blank lines just before.
\<close>

fun spec_response :: "nat \<Rightarrow> string list \<Rightarrow> string \<times> bool \<times> string list" where
  "spec_response blanks [] = ([], False, [])"
| "spec_response blanks (l # ls) =
     (if l = [] then (if blanks \<ge> 3 then ([], True, ls) else spec_response (Suc blanks) ls)
      else if isTerminal l then (l @ [CHR 0x0A], True, ls)
      else (case spec_response 0 ls of
              (text, stopped, unread) \<Rightarrow> (l @ [CHR 0x0A] @ text, stopped, unread)))"

section \<open>Reading the log\<close>

text \<open>
  \<open>events_of w w'\<close> are the events a call has added to the log when it takes the state
  \<open>w\<close> to \<open>w'\<close>. \<open>is_handshake\<close> holds of the channel operations, \<open>accepted\<close> gives the
  bytes a read of the port handed to the caller (none when it returned an error), and
  \<open>pause_events\<close> and \<open>resume_events\<close> are the channel operations of \<open>pauseListener\<close> and of
  \<open>resumeListener\<close>.
\<close>

fun is_handshake :: "event \<Rightarrow> bool" where
  "is_handshake (ChanSend c) = True"
| "is_handshake (ChanRecv c) = True"
| "is_handshake _ = False"

definition events_of :: "world \<Rightarrow> world \<Rightarrow> event list" where
  "events_of w w' = drop (length (log w)) (log w')"

fun is_PortRead :: "event \<Rightarrow> bool" where
  "is_PortRead (PortRead bs err) = True"
| "is_PortRead _ = False"

fun accepted :: "event \<Rightarrow> string" where
  "accepted (PortRead bs err) = (if err then [] else bs)"
| "accepted _ = []"

definition pause_events :: "world \<Rightarrow> event list" where
  "pause_events w = (if listening w then [ChanSend pauseChan, ChanRecv resumeChan] else [])"

definition resume_events :: "world \<Rightarrow> event list" where
  "resume_events w = (if listening w then [ChanSend resumeChan] else [])"

definition write_ok :: "world \<Rightarrow> bool" where
  "write_ok w = (case write_errs w of [] \<Rightarrow> True | e # es \<Rightarrow> \<not> e)"

section \<open>Fixtures\<close>

text \<open>A handler that is not listening, with nothing to come from the port.\<close>

definition quiet :: world where
  "quiet = \<lparr>listening = False, clock = 0, log = [], write_errs = [], reader_in = [],
             port_in = []\<rparr>"

definition CRLF :: string where
  "CRLF = [CHR 0x0D, CHR 0x0A]"

text \<open>
  A script of lines that arrive one after the other: each line is returned by the reader
  after the reader has been blocked for the time given with it.
\<close>

definition timed_lines :: "(nat \<times> string) list \<Rightarrow> read_event list" where
  "timed_lines ls = concat (map (\<lambda>(d, l). [Wait d, Line l]) ls)"

declare promptLoop.simps [simp del]
declare responseLoop.simps [simp del]

section \<open>The header parsers\<close>

text \<open>
  Claim C1. The claim: in every parser of a CMGL, CMGR or CMT header a comma inside a
  double-quoted value is not a field boundary. Only \<open>parseSMSHeader\<close> does that, through
  \<open>splitRespectingQuotes\<close>; \<open>handleCMTMessage\<close>, \<open>readSMSByIndex\<close> and \<open>parseSMSList\<close> call
  \<open>strings.Split(line, ",")\<close>. The date of a real header holds a comma: on the header of the
  comment in \<open>handleCMTMessage\<close> the date comes out as \<open>25/07/21\<close>; \<open>readSMSByIndex\<close> and
  \<open>parseSMSList\<close> cut the date of the test in the same way, where \<open>parseSMSHeader\<close> keeps
  it whole.
\<close>

theorem C1_quoted_comma_splits_the_field:
  "fst (handleCMTMessage ''+CMT: \"+11234567890\",\"\",\"25/07/21,21:07:17-28\"''
          (quiet\<lparr>reader_in := [Line (''Hello'' @ CRLF), Line CRLF]\<rparr>))
     = Some \<lparr>Index = 0, Status = [], Sender = ''+11234567890'', Date = ''25/07/21'',
              Message = ''Hello''\<rparr>
   \<and> fst (readSMSByIndex 1 (quiet\<lparr>reader_in :=
          [Line (''+CMGR: \"REC READ\",\"+1234567890\",\"24/01/15,10:30:45+00\"'' @ CRLF),
           Line (''Hello'' @ CRLF), Line (''OK'' @ CRLF)]\<rparr>))
     = Inr \<lparr>Index = 1, Status = ''REC READ'', Sender = ''+1234567890'', Date = ''24/01/15'',
             Message = ''Hello''\<rparr>
   \<and> map Date (parseSMSList sscanf
          (''+CMGL: 1,\"REC READ\",\"+1234567890\",\"24/01/15,10:30:45+00\"'' @ [CHR 0x0A]
           @ ''Hello''))
     = [''24/01/15'']
   \<and> parseSMSHeader ''+CMGR: \"REC READ\",\"+1234567890\",\"24/01/15,10:30:45+00\"''
     = Inr \<lparr>Index = 0, Status = ''REC READ'', Sender = ''+1234567890'',
             Date = ''24/01/15,10:30:45+00'', Message = []\<rparr>"
proof -
  have a: "fst (handleCMTMessage ''+CMT: \"+11234567890\",\"\",\"25/07/21,21:07:17-28\"''
          (quiet\<lparr>reader_in := [Line (''Hello'' @ CRLF), Line CRLF]\<rparr>))
     = Some \<lparr>Index = 0, Status = [], Sender = ''+11234567890'', Date = ''25/07/21'',
              Message = ''Hello''\<rparr>"
    by code_simp
  have b: "fst (readSMSByIndex 1 (quiet\<lparr>reader_in :=
          [Line (''+CMGR: \"REC READ\",\"+1234567890\",\"24/01/15,10:30:45+00\"'' @ CRLF),
           Line (''Hello'' @ CRLF), Line (''OK'' @ CRLF)]\<rparr>))
     = Inr \<lparr>Index = 1, Status = ''REC READ'', Sender = ''+1234567890'', Date = ''24/01/15'',
             Message = ''Hello''\<rparr>"
    by code_simp
  have c: "map Date (parseSMSList sscanf
          (''+CMGL: 1,\"REC READ\",\"+1234567890\",\"24/01/15,10:30:45+00\"'' @ [CHR 0x0A]
           @ ''Hello''))
     = [''24/01/15'']"
    by code_simp
  have d: "parseSMSHeader ''+CMGR: \"REC READ\",\"+1234567890\",\"24/01/15,10:30:45+00\"''
     = Inr \<lparr>Index = 0, Status = ''REC READ'', Sender = ''+1234567890'',
             Date = ''24/01/15,10:30:45+00'', Message = []\<rparr>"
    by code_simp
  from a b c d show ?thesis by blast
qed

text \<open>
  Claim C5. The claim: with four or more fields the date is the fourth field, with three it
  is the third, in \<open>parseSMSHeader\<close> and in \<open>readSMSByIndex\<close>. \<open>readSMSByIndex\<close> always
  takes \<open>parts[2]\<close>: on the header with all four fields of the test of the package it
  returns the name as the date, where \<open>parseSMSHeader\<close> returns the fourth field.
\<close>

theorem C5_readSMSByIndex_takes_the_third_part_as_date:
  "fst (readSMSByIndex 7 (quiet\<lparr>reader_in :=
          [Line (''+CMGR: \"REC UNREAD\",\"+9876543210\",\"John Doe\",\"24/01/15,14:20:30+00\"''
                 @ CRLF),
           Line (''Hello'' @ CRLF), Line (''OK'' @ CRLF)]\<rparr>))
     = Inr \<lparr>Index = 7, Status = ''REC UNREAD'', Sender = ''+9876543210'', Date = ''John Doe'',
             Message = ''Hello''\<rparr>
   \<and> parseSMSHeader
         ''+CMGR: \"REC UNREAD\",\"+9876543210\",\"John Doe\",\"24/01/15,14:20:30+00\"''
     = Inr \<lparr>Index = 0, Status = ''REC UNREAD'', Sender = ''+9876543210'',
             Date = ''24/01/15,14:20:30+00'', Message = []\<rparr>"
proof -
  have a: "fst (readSMSByIndex 7 (quiet\<lparr>reader_in :=
          [Line (''+CMGR: \"REC UNREAD\",\"+9876543210\",\"John Doe\",\"24/01/15,14:20:30+00\"''
                 @ CRLF),
           Line (''Hello'' @ CRLF), Line (''OK'' @ CRLF)]\<rparr>))
     = Inr \<lparr>Index = 7, Status = ''REC UNREAD'', Sender = ''+9876543210'', Date = ''John Doe'',
             Message = ''Hello''\<rparr>"
    by code_simp
  have b: "parseSMSHeader
         ''+CMGR: \"REC UNREAD\",\"+9876543210\",\"John Doe\",\"24/01/15,14:20:30+00\"''
     = Inr \<lparr>Index = 0, Status = ''REC UNREAD'', Sender = ''+9876543210'',
             Date = ''24/01/15,14:20:30+00'', Message = []\<rparr>"
    by code_simp
  from a b show ?thesis by blast
qed

section \<open>The records handed to the callback\<close>

text \<open>
  Every line that \<open>handleCMTMessage\<close> adds to the message is trimmed and not empty, and the
  callback is called only when there is at least one.
\<close>

lemma Join_nonempty: "ls \<noteq> [] \<Longrightarrow> \<forall>l\<in>set ls. l \<noteq> [] \<Longrightarrow> Join ls sep \<noteq> []"
  by (induction ls sep rule: Join.induct) auto

lemma deliver_Message:
  assumes "deliver sms ml = Some r" and "\<forall>l\<in>set ml. l \<noteq> []"
  shows "Message r \<noteq> []"
proof -
  from assms(1) have ne: "ml \<noteq> []" and r: "r = sms\<lparr>Message := Join ml [CHR 0x0A]\<rparr>"
    by (simp_all add: deliver_def split: if_splits)
  from r have "Message r = Join ml [CHR 0x0A]" by simp
  with Join_nonempty[OF ne assms(2)] show ?thesis by simp
qed

lemma handleCMTMessage_loop_Message:
  "fst (handleCMTMessage_loop sms ml rs) = Some r \<Longrightarrow> \<forall>l\<in>set ml. l \<noteq> []
   \<Longrightarrow> Message r \<noteq> []"
proof (induction sms ml rs rule: handleCMTMessage_loop.induct)
  case (1 sms messageLines)
  then show ?case using deliver_Message[of sms messageLines r] by simp
next
  case (2 sms messageLines rs)
  then show ?case using deliver_Message[of sms messageLines r] by simp
next
  case (3 sms messageLines d rs)
  then show ?case by simp
next
  case (4 sms messageLines rs)
  then show ?case by simp
next
  case (5 sms messageLines raw rs)
  let ?line = "TrimSpace raw"
  show ?case
  proof (cases "?line = []")
    case blank: True
    show ?thesis
    proof (cases "messageLines = []")
      case True
      with blank 5 show ?thesis by (simp add: Let_def)
    next
      case False
      with blank "5.prems"(1) have "deliver sms messageLines = Some r"
        by (simp add: deliver_def Let_def split: if_splits)
      with "5.prems"(2) show ?thesis by (intro deliver_Message)
    qed
  next
    case body: False
    show ?thesis
    proof (cases "isNextNotification ?line")
      case True
      with body "5.prems"(1) have "deliver sms messageLines = Some r"
        by (simp add: Let_def)
      with "5.prems"(2) show ?thesis by (intro deliver_Message)
    next
      case False
      with body 5 show ?thesis by (simp add: Let_def)
    qed
  qed
qed

lemma handleCMTMessage_loop_Message':
  "handleCMTMessage_loop s0 [] rs = (Some r, x) \<Longrightarrow> Message r \<noteq> []"
  using handleCMTMessage_loop_Message[of s0 "[]" rs r] by simp

text \<open>
  Claim C4, as amended. The claim: every SMS record handed to a caller has a non-empty
  sender and a non-empty message. The code checks neither field anywhere; what it
  guarantees is that a record passed to the callback for a \<open>+CMT:\<close> notification has a
  non-empty message.
\<close>

theorem C4_cmt_callback_has_a_message:
  "fst (handleCMTMessage line w) = Some sms \<Longrightarrow> Message sms \<noteq> []"
  by (auto simp: handleCMTMessage_def Let_def split: if_splits prod.splits
           dest: handleCMTMessage_loop_Message')

text \<open>
  The claim fails on both paths: \<open>readSMSByIndex\<close> returns a record with no sender and no
  message when the header has an empty sender and no line follows it, and the callback of a
  \<open>+CMT:\<close> notification receives a record with no sender when the header has none.
\<close>

theorem C4_counterexample:
  "fst (readSMSByIndex 1
          (quiet\<lparr>reader_in := [Line (''+CMGR: \"REC READ\",\"\",\"\"'' @ CRLF), Fail]\<rparr>))
     = Inr \<lparr>Index = 1, Status = ''REC READ'', Sender = [], Date = [], Message = []\<rparr>
   \<and> fst (handleCMTMessage ''+CMT: \"\",\"\",\"24/01/15\"''
          (quiet\<lparr>reader_in := [Line (''Hi'' @ CRLF), Line CRLF]\<rparr>))
     = Some \<lparr>Index = 0, Status = [], Sender = [], Date = ''24/01/15'', Message = ''Hi''\<rparr>"
proof -
  have a: "fst (readSMSByIndex 1
          (quiet\<lparr>reader_in := [Line (''+CMGR: \"REC READ\",\"\",\"\"'' @ CRLF), Fail]\<rparr>))
     = Inr \<lparr>Index = 1, Status = ''REC READ'', Sender = [], Date = [], Message = []\<rparr>"
    by code_simp
  have b: "fst (handleCMTMessage ''+CMT: \"\",\"\",\"24/01/15\"''
          (quiet\<lparr>reader_in := [Line (''Hi'' @ CRLF), Line CRLF]\<rparr>))
     = Some \<lparr>Index = 0, Status = [], Sender = [], Date = ''24/01/15'', Message = ''Hi''\<rparr>"
    by code_simp
  from a b show ?thesis by blast
qed

theorem C4_cmt_callback_has_a_message_witness:
  "fst (handleCMTMessage ''+CMT: \"+1\",\"\",\"d\"''
          (quiet\<lparr>reader_in := [Line ''Hi'', Line []]\<rparr>))
     = Some \<lparr>Index = 0, Status = [], Sender = ''+1'', Date = ''d'', Message = ''Hi''\<rparr>
   \<and> Message \<lparr>Index = 0, Status = [], Sender = ''+1'', Date = ''d'', Message = ''Hi''\<rparr> \<noteq> []"
proof -
  have a: "fst (handleCMTMessage ''+CMT: \"+1\",\"\",\"d\"''
          (quiet\<lparr>reader_in := [Line ''Hi'', Line []]\<rparr>))
     = Some \<lparr>Index = 0, Status = [], Sender = ''+1'', Date = ''d'', Message = ''Hi''\<rparr>"
    by code_simp
  from C4_cmt_callback_has_a_message[OF a] a show ?thesis by simp
qed

section \<open>The events of a call\<close>

lemma Contains_single: "Contains s [c] = (c \<in> set s)"
  by (induction s) (auto simp: HasPrefix_def)

lemma pauseListener_frame [simp]:
  "log (pauseListener w) = log w @ pause_events w"
  "listening (pauseListener w) = listening w"
  "clock (pauseListener w) = clock w"
  "write_errs (pauseListener w) = write_errs w"
  "reader_in (pauseListener w) = reader_in w"
  "port_in (pauseListener w) = port_in w"
  by (simp_all add: pauseListener_def pause_events_def emit_def)

lemma resumeListener_frame [simp]:
  "log (resumeListener w) = log w @ resume_events w"
  "listening (resumeListener w) = listening w"
  "clock (resumeListener w) = clock w"
  "reader_in (resumeListener w) = reader_in w"
  by (simp_all add: resumeListener_def resume_events_def emit_def)

lemma sleep_frame [simp]:
  "log (sleep ms w) = log w"
  "listening (sleep ms w) = listening w"
  "clock (sleep ms w) = clock w + ms"
  "write_errs (sleep ms w) = write_errs w"
  "port_in (sleep ms w) = port_in w"
  by (simp_all add: sleep_def)

lemma write_ok_pauseListener [simp]: "write_ok (pauseListener w) = write_ok w"
  by (simp add: write_ok_def)

lemma port_Write_frame:
  assumes "port_Write data w = (err, w')"
  shows "log w' = log w @ [if err then PortWriteFailed data else PortWrite data]"
    and "listening w' = listening w" and "clock w' = clock w" and "port_in w' = port_in w"
    and "reader_in w' = reader_in w"
    and "err = (\<not> write_ok w)"
  using assms by (auto simp: port_Write_def write_ok_def emit_def split: list.splits)

lemma port_Read_frame:
  assumes "port_Read k w = (buf, err, w')"
  shows "log w' = log w @ [PortRead buf err]"
    and "listening w' = listening w" and "length buf \<le> k" and "clock w \<le> clock w'"
  using assms by (auto simp: port_Read_def emit_def split: list.splits)

lemma promptLoop_log:
  "promptLoop st pb pr w = (pb', pr', w') \<Longrightarrow>
     \<exists>rs. log w' = log w @ rs \<and> list_all is_PortRead rs \<and> pb' = pb @ concat (map accepted rs)
          \<and> listening w' = listening w
          \<and> (pr' \<longrightarrow> pr \<or> CHR ''>'' \<in> set pb')
          \<and> (\<not> pr' \<longrightarrow> \<not> clock w' - st < 10000)
          \<and> clock w \<le> clock w'
          \<and> (pr \<longrightarrow> pr')
          \<and> (\<not> pr' \<longrightarrow> CHR ''>'' \<notin> set pb \<longrightarrow> CHR ''>'' \<notin> set pb')"
proof (induction st pb pr w arbitrary: pb' pr' w' rule: promptLoop.induct)
  case (1 st pb pr w)
  show ?case
  proof (cases "\<not> pr \<and> clock w - st < 10000")
    case False
    with "1.prems" show ?thesis
      by (subst (asm) promptLoop.simps) (auto intro: exI[of _ "[]"])
  next
    case True
    obtain buf err w1 where rd: "port_Read 1 w = (buf, err, w1)"
      by (cases "port_Read 1 w") auto
    note fr = port_Read_frame[OF rd]
    show ?thesis
    proof (cases "\<not> err \<and> length buf > 0")
      case acc: True
      then have b1: "[hd buf] = buf" using fr(3) by (cases buf) auto
      show ?thesis
      proof (cases "Contains (pb @ [hd buf]) ''>''")
        case c: True
        from "1.prems" True rd acc c
        have "promptLoop st (pb @ [hd buf]) True w1 = (pb', pr', w')"
          by (subst (asm) promptLoop.simps) simp
        from "1.IH"(1)[OF True rd[symmetric] refl refl acc refl c this]
        obtain rs where "log w' = log w1 @ rs" "list_all is_PortRead rs"
          "pb' = (pb @ [hd buf]) @ concat (map accepted rs)" "listening w' = listening w1"
          "pr' \<longrightarrow> True \<or> CHR ''>'' \<in> set pb'" "\<not> pr' \<longrightarrow> \<not> clock w' - st < 10000"
          "clock w1 \<le> clock w'" "True \<longrightarrow> pr'"
          by blast
        moreover have "CHR ''>'' \<in> set (pb @ [hd buf])" using c by (simp add: Contains_single)
        ultimately show ?thesis using fr acc b1
          by (intro exI[of _ "PortRead buf err # rs"]) auto
      next
        case c: False
        from "1.prems" True rd acc c
        have "promptLoop st (pb @ [hd buf]) pr w1 = (pb', pr', w')"
          by (subst (asm) promptLoop.simps) simp
        from "1.IH"(2)[OF True rd[symmetric] refl refl acc refl c this]
        obtain rs where "log w' = log w1 @ rs" "list_all is_PortRead rs"
          "pb' = (pb @ [hd buf]) @ concat (map accepted rs)" "listening w' = listening w1"
          "pr' \<longrightarrow> pr \<or> CHR ''>'' \<in> set pb'" "\<not> pr' \<longrightarrow> \<not> clock w' - st < 10000"
          "clock w1 \<le> clock w'" "pr \<longrightarrow> pr'"
          "\<not> pr' \<longrightarrow> CHR ''>'' \<notin> set (pb @ [hd buf]) \<longrightarrow> CHR ''>'' \<notin> set pb'"
          by blast
        moreover have "CHR ''>'' \<notin> set pb \<longrightarrow> CHR ''>'' \<notin> set (pb @ [hd buf])"
          using c by (simp add: Contains_single)
        ultimately show ?thesis using fr acc b1
          by (intro exI[of _ "PortRead buf err # rs"]) auto
      qed
    next
      case rej: False
      from "1.prems" True rd rej
      have "promptLoop st pb pr w1 = (pb', pr', w')"
        by (subst (asm) promptLoop.simps) auto
      from "1.IH"(3)[OF True rd[symmetric] refl refl rej this]
      obtain rs where "log w' = log w1 @ rs" "list_all is_PortRead rs"
        "pb' = pb @ concat (map accepted rs)" "listening w' = listening w1"
        "pr' \<longrightarrow> pr \<or> CHR ''>'' \<in> set pb'" "\<not> pr' \<longrightarrow> \<not> clock w' - st < 10000"
        "clock w1 \<le> clock w'" "pr \<longrightarrow> pr'"
        "\<not> pr' \<longrightarrow> CHR ''>'' \<notin> set pb \<longrightarrow> CHR ''>'' \<notin> set pb'"
        by blast
      then show ?thesis using fr rej
        by (intro exI[of _ "PortRead buf err # rs"]) auto
    qed
  qed
qed

lemma responseLoop_log:
  "responseLoop st rb w = (res, w') \<Longrightarrow>
     \<exists>rs. log w' = log w @ rs \<and> list_all is_PortRead rs \<and> listening w' = listening w
          \<and> (res = None \<or> res = Some SMSTimeout \<or> (\<exists>t. res = Some (SMSFailed t)))"
proof (induction st rb w arbitrary: res w' rule: responseLoop.induct)
  case (1 st rb w)
  show ?case
  proof (cases "clock w - st < 30000")
    case False
    with "1.prems" show ?thesis
      by (subst (asm) responseLoop.simps) (auto intro: exI[of _ "[]"])
  next
    case True
    obtain buf err w1 where rd: "port_Read 128 w = (buf, err, w1)"
      by (cases "port_Read 128 w") auto
    note fr = port_Read_frame[OF rd]
    show ?thesis
    proof (cases "\<not> err \<and> length buf > 0")
      case acc: True
      let ?response = "rb @ buf"
      show ?thesis
      proof (cases "(Contains ?response ''+CMGS:'' \<or> Contains ?response ''OK'')
                     \<and> Contains ?response ''+CMGS:''")
        case True
        with "1.prems" \<open>clock w - st < 30000\<close> rd acc have "w' = w1 \<and> res = None"
          by (subst (asm) responseLoop.simps) (auto simp: Let_def)
        with fr show ?thesis by (intro exI[of _ "[PortRead buf err]"]) simp
      next
        case ok: False
        show ?thesis
        proof (cases "Contains ?response ''ERROR'' \<or> Contains ?response ''+CMS ERROR''")
          case True
          with "1.prems" \<open>clock w - st < 30000\<close> rd acc ok
          have "w' = w1 \<and> res = Some (SMSFailed ?response)"
            by (subst (asm) responseLoop.simps) (auto simp: Let_def)
          with fr show ?thesis by (intro exI[of _ "[PortRead buf err]"]) simp
        next
          case False
          with "1.prems" \<open>clock w - st < 30000\<close> rd acc ok
          have "responseLoop st ?response w1 = (res, w')"
            by (subst (asm) responseLoop.simps) (auto simp: Let_def)
          from "1.IH"(1)[OF \<open>clock w - st < 30000\<close> rd[symmetric] refl refl acc refl ok False this]
          obtain rs where "log w' = log w1 @ rs" "list_all is_PortRead rs"
            "listening w' = listening w1"
            "res = None \<or> res = Some SMSTimeout \<or> (\<exists>t. res = Some (SMSFailed t))"
            by blast
          then show ?thesis using fr
            by (intro exI[of _ "PortRead buf err # rs"]) auto
        qed
      qed
    next
      case rej: False
      with "1.prems" True rd have "responseLoop st rb w1 = (res, w')"
        by (subst (asm) responseLoop.simps) auto
      from "1.IH"(2)[OF True rd[symmetric] refl refl rej this]
      obtain rs where "log w' = log w1 @ rs" "list_all is_PortRead rs"
        "listening w' = listening w1"
        "res = None \<or> res = Some SMSTimeout \<or> (\<exists>t. res = Some (SMSFailed t))"
        by blast
      then show ?thesis using fr
        by (intro exI[of _ "PortRead buf err # rs"]) auto
    qed
  qed
qed

lemma reader_run_frame:
  assumes "reader_run cmd w = (response, done, w')"
  shows "\<exists>rs. log w' = log w @ map ReaderRead rs" and "listening w' = listening w"
  using assms by (auto simp: reader_run_def emit_def Let_def split: prod.splits)

lemma no_handshake_in_reads [simp]: "filter is_handshake (map ReaderRead rs) = []"
  by (induction rs) auto

lemma no_handshake_in_port_reads: "list_all is_PortRead rs \<Longrightarrow> filter is_handshake rs = []"
proof (induction rs)
  case (Cons e rs)
  then show ?case by (cases e) auto
qed simp

lemma sendATCommand_log:
  assumes "sendATCommand cmd w = (resp, err, w')"
  shows "\<exists>es. log w' = log w @ pause_events w @ es @ resume_events w
              \<and> filter is_handshake es = []"
proof -
  obtain e w2 where wr: "port_Write (cmd @ [CHR 0x0D, CHR 0x0A]) (pauseListener w) = (e, w2)"
    by (cases "port_Write (cmd @ [CHR 0x0D, CHR 0x0A]) (pauseListener w)") auto
  note fw = port_Write_frame[OF wr]
  show ?thesis
  proof (cases e)
    case True
    with assms wr have "w' = resumeListener w2"
      by (simp add: sendATCommand_def)
    with fw True show ?thesis
      by (intro exI[of _ "[PortWriteFailed (cmd @ [CHR 0x0D, CHR 0x0A])]"])
         (simp add: resume_events_def)
  next
    case False
    obtain response fin w3 where rr: "reader_run cmd w2 = (response, fin, w3)"
      by (cases "reader_run cmd w2") auto
    from reader_run_frame[OF rr] obtain rs where
      l3: "log w3 = log w2 @ map ReaderRead rs" and "listening w3 = listening w2"
      by blast
    moreover from assms wr False rr have "w' = resumeListener w3"
      by (simp add: sendATCommand_def split: if_splits)
    ultimately show ?thesis using fw False
      by (intro exI[of _ "PortWrite (cmd @ [CHR 0x0D, CHR 0x0A]) # map ReaderRead rs"])
         (simp add: resume_events_def)
  qed
qed

lemma events_of_append [simp]: "log w' = log w @ es \<Longrightarrow> events_of w w' = es"
  by (simp add: events_of_def)

lemma SendSMS_cases:
  assumes "SendSMS pn msg w = (res, w')"
  defines "cmd \<equiv> ''AT+CMGS=\"'' @ pn @ ''\"'' @ [CHR 0x0D]"
  shows "(res = Some (FailedToWriteCMGS TransportError)
            \<and> log w' = log w @ pause_events w @ [PortWriteFailed cmd] @ resume_events w)
       \<or> (\<exists>rs1. res = Some (PromptTimeout (concat (map accepted rs1)))
            \<and> log w' = log w @ pause_events w @ [PortWrite cmd] @ rs1 @ resume_events w
            \<and> list_all is_PortRead rs1 \<and> CHR ''>'' \<notin> set (concat (map accepted rs1))
            \<and> clock w + 100 + 10000 \<le> clock w')
       \<or> (\<exists>rs1. res = Some (FailedToSendMessage TransportError)
            \<and> log w' = log w @ pause_events w @ [PortWrite cmd] @ rs1
                        @ [PortWriteFailed (msg @ [CHR 0x1A])] @ resume_events w
            \<and> list_all is_PortRead rs1 \<and> CHR ''>'' \<in> set (concat (map accepted rs1)))
       \<or> (\<exists>rs1 rs2. res \<noteq> Some (FailedToWriteCMGS TransportError)
            \<and> (\<forall>b. res \<noteq> Some (PromptTimeout b))
            \<and> res \<noteq> Some (FailedToSendMessage TransportError)
            \<and> log w' = log w @ pause_events w @ [PortWrite cmd] @ rs1
                        @ [PortWrite (msg @ [CHR 0x1A])] @ rs2 @ resume_events w
            \<and> list_all is_PortRead rs1 \<and> list_all is_PortRead rs2
            \<and> CHR ''>'' \<in> set (concat (map accepted rs1)))"
proof -
  let ?w1 = "sleep 100 (pauseListener w)"
  obtain e w2 where wr: "port_Write cmd ?w1 = (e, w2)"
    by (cases "port_Write cmd ?w1") auto
  note fw = port_Write_frame[OF wr]
  show ?thesis
  proof (cases e)
    case True
    with assms wr have "res = Some (FailedToWriteCMGS TransportError)" "w' = resumeListener w2"
      by (simp_all add: SendSMS_def cmd_def)
    with fw True show ?thesis by (simp add: resume_events_def)
  next
    case wrote: False
    obtain pb pr w3 where pl: "promptLoop (clock w2) [] False w2 = (pb, pr, w3)"
      by (cases "promptLoop (clock w2) [] False w2") auto
    from promptLoop_log[OF pl] obtain rs1 where p:
      "log w3 = log w2 @ rs1" "list_all is_PortRead rs1" "pb = concat (map accepted rs1)"
      "listening w3 = listening w2" "pr \<longrightarrow> CHR ''>'' \<in> set pb"
      "\<not> pr \<longrightarrow> \<not> clock w3 - clock w2 < 10000" "\<not> pr \<longrightarrow> CHR ''>'' \<notin> set pb"
      by auto
    show ?thesis
    proof (cases pr)
      case False
      with assms wr wrote pl have "res = Some (PromptTimeout pb)" "w' = resumeListener w3"
        by (simp_all add: SendSMS_def cmd_def)
      with fw wrote p False show ?thesis
        by (intro disjI2 disjI1 exI[of _ rs1]) (simp add: resume_events_def)
    next
      case prompt: True
      obtain e2 w4 where wr2: "port_Write (msg @ [CHR 0x1A]) (sleep 100 w3) = (e2, w4)"
        by (cases "port_Write (msg @ [CHR 0x1A]) (sleep 100 w3)") auto
      note fw2 = port_Write_frame[OF wr2]
      show ?thesis
      proof (cases e2)
        case True
        with assms wr wrote pl prompt wr2
        have "res = Some (FailedToSendMessage TransportError)" "w' = resumeListener w4"
          by (simp_all add: SendSMS_def cmd_def)
        with fw wrote p prompt fw2 True show ?thesis
          by (intro disjI2 disjI1 exI[of _ rs1]) (simp add: resume_events_def)
      next
        case wrote2: False
        obtain r5 w5 where rl: "responseLoop (clock w4) [] w4 = (r5, w5)"
          by (cases "responseLoop (clock w4) [] w4") auto
        from responseLoop_log[OF rl] obtain rs2 where q:
          "log w5 = log w4 @ rs2" "list_all is_PortRead rs2" "listening w5 = listening w4"
          and r5: "r5 = None \<or> r5 = Some SMSTimeout \<or> (\<exists>t. r5 = Some (SMSFailed t))"
          by blast
        from assms wr wrote pl prompt wr2 wrote2 rl
        have "res = r5" "w' = resumeListener w5"
          by (simp_all add: SendSMS_def cmd_def)
        with fw wrote p prompt fw2 wrote2 q r5 show ?thesis
          by (intro disjI2 exI[of _ rs1] exI[of _ rs2]) (auto simp: resume_events_def)
      qed
    qed
  qed
qed

lemma SendSMS_log:
  assumes "SendSMS pn msg w = (res, w')"
  shows "\<exists>es. log w' = log w @ pause_events w @ es @ resume_events w
              \<and> filter is_handshake es = []"
  using SendSMS_cases[OF assms]
  apply (elim disjE exE conjE)
  subgoal by (rule exI[of _ "[PortWriteFailed (''AT+CMGS=\"'' @ pn @ ''\"'' @ [CHR 0x0D])]"]) simp
  subgoal for rs1
    by (rule exI[of _ "[PortWrite (''AT+CMGS=\"'' @ pn @ ''\"'' @ [CHR 0x0D])] @ rs1"])
       (simp add: no_handshake_in_port_reads)
  subgoal for rs1
    by (rule exI[of _ "[PortWrite (''AT+CMGS=\"'' @ pn @ ''\"'' @ [CHR 0x0D])] @ rs1
                       @ [PortWriteFailed (msg @ [CHR 0x1A])]"])
       (simp add: no_handshake_in_port_reads)
  subgoal for rs1 rs2
    by (rule exI[of _ "[PortWrite (''AT+CMGS=\"'' @ pn @ ''\"'' @ [CHR 0x0D])] @ rs1
                       @ [PortWrite (msg @ [CHR 0x1A])] @ rs2"])
       (simp add: no_handshake_in_port_reads)
  done

lemma transaction_events:
  assumes "log w' = log w @ pause_events w @ es @ resume_events w"
    and "filter is_handshake es = []"
  shows "log w' = log w @ events_of w w'"
    and "filter is_handshake (events_of w w') =
           (if listening w then [ChanSend pauseChan, ChanRecv resumeChan, ChanSend resumeChan]
            else [])"
    and "listening w \<Longrightarrow> last (events_of w w') = ChanSend resumeChan"
  using assms by (simp_all add: events_of_def pause_events_def resume_events_def)

text \<open>
  Claim C8. Every call of \<open>sendATCommand\<close> and of \<open>SendSMS\<close> that pauses the listener also
  resumes it before it returns, on every exit path, and exactly once. The events a call adds
  to the log extend the log it started with; when the handler is listening, the channel
  operations among them are the send of the pause request, the receive of its
  acknowledgement and one send of the resume signal, and that send is the last event of the
  call, whatever the port and the reader do (write failure, prompt timeout, protocol error,
  response timeout or success). When the handler is not listening there is none.
\<close>

theorem C8_pause_is_resumed_on_every_exit:
  "log (snd (snd (sendATCommand command w)))
     = log w @ events_of w (snd (snd (sendATCommand command w)))
   \<and> filter is_handshake (events_of w (snd (snd (sendATCommand command w))))
     = (if listening w then [ChanSend pauseChan, ChanRecv resumeChan, ChanSend resumeChan]
        else [])
   \<and> (listening w \<longrightarrow>
        last (events_of w (snd (snd (sendATCommand command w)))) = ChanSend resumeChan)
   \<and> log (snd (SendSMS phoneNumber message w))
     = log w @ events_of w (snd (SendSMS phoneNumber message w))
   \<and> filter is_handshake (events_of w (snd (SendSMS phoneNumber message w)))
     = (if listening w then [ChanSend pauseChan, ChanRecv resumeChan, ChanSend resumeChan]
        else [])
   \<and> (listening w \<longrightarrow>
        last (events_of w (snd (SendSMS phoneNumber message w))) = ChanSend resumeChan)"
proof -
  obtain resp err w1 where r1: "sendATCommand command w = (resp, err, w1)"
    by (cases "sendATCommand command w") auto
  obtain res w2 where r2: "SendSMS phoneNumber message w = (res, w2)"
    by (cases "SendSMS phoneNumber message w") auto
  from sendATCommand_log[OF r1] obtain es1 where
    e1: "log w1 = log w @ pause_events w @ es1 @ resume_events w" "filter is_handshake es1 = []"
    by blast
  from SendSMS_log[OF r2] obtain es2 where
    e2: "log w2 = log w @ pause_events w @ es2 @ resume_events w" "filter is_handshake es2 = []"
    by blast
  have a: "snd (snd (sendATCommand command w)) = w1" using r1 by simp
  have b: "snd (SendSMS phoneNumber message w) = w2" using r2 by simp
  show ?thesis
    unfolding a b using transaction_events[OF e1] transaction_events[OF e2] by blast
qed

theorem C8_pause_is_resumed_on_every_exit_witness:
  "listening (quiet\<lparr>listening := True, write_errs := [True]\<rparr>)
   \<and> last (events_of (quiet\<lparr>listening := True, write_errs := [True]\<rparr>)
        (snd (snd (sendATCommand ''AT'' (quiet\<lparr>listening := True, write_errs := [True]\<rparr>)))))
       = ChanSend resumeChan
   \<and> last (events_of (quiet\<lparr>listening := True, write_errs := [True]\<rparr>)
        (snd (SendSMS ''+1'' ''hi'' (quiet\<lparr>listening := True, write_errs := [True]\<rparr>))))
       = ChanSend resumeChan"
proof -
  let ?w = "quiet\<lparr>listening := True, write_errs := [True]\<rparr>"
  have l: "listening ?w" by simp
  from C8_pause_is_resumed_on_every_exit[of "''AT''" ?w "''+1''" "''hi''"] l
  show ?thesis by blast
qed

text \<open>
  Claim C9. In every successful run of \<open>SendSMS(phoneNumber, message)\<close> the writes to the
  port are, in this order, \<open>AT+CMGS="<phoneNumber>"\<close> followed by one carriage return and no
  newline, and then the message followed by the byte 0x1A; between the two there are only
  reads of the port, and the bytes they delivered contain \<open>>\<close>. When the prompt does not
  come, the call fails with the prompt timeout: then at least ten seconds have passed since
  the polling began (100 ms after the call), the bytes received hold no \<open>>\<close>, and the message
  was not written.
\<close>

theorem C9_SendSMS_writes_command_then_message_after_prompt:
  "(fst (SendSMS phoneNumber message w) = None \<longrightarrow>
      (\<exists>rs1 rs2.
         events_of w (snd (SendSMS phoneNumber message w))
           = pause_events w @ [PortWrite (''AT+CMGS=\"'' @ phoneNumber @ ''\"'' @ [CHR 0x0D])]
             @ rs1 @ [PortWrite (message @ [CHR 0x1A])] @ rs2 @ resume_events w
         \<and> list_all is_PortRead rs1 \<and> list_all is_PortRead rs2
         \<and> CHR ''>'' \<in> set (concat (map accepted rs1))))
   \<and> (\<forall>got. fst (SendSMS phoneNumber message w) = Some (PromptTimeout got) \<longrightarrow>
      (\<exists>rs1.
         events_of w (snd (SendSMS phoneNumber message w))
           = pause_events w @ [PortWrite (''AT+CMGS=\"'' @ phoneNumber @ ''\"'' @ [CHR 0x0D])]
             @ rs1 @ resume_events w
         \<and> list_all is_PortRead rs1 \<and> got = concat (map accepted rs1)
         \<and> CHR ''>'' \<notin> set got
         \<and> clock w + 100 + 10000 \<le> clock (snd (SendSMS phoneNumber message w))))"
proof -
  obtain res w' where r: "SendSMS phoneNumber message w = (res, w')"
    by (cases "SendSMS phoneNumber message w") auto
  show ?thesis
    unfolding r fst_conv snd_conv using SendSMS_cases[OF r]
    by (elim disjE exE conjE) (simp_all, blast)
qed

theorem C9_SendSMS_writes_command_then_message_after_prompt_witness:
  "fst (SendSMS ''+1'' ''hi'' (quiet\<lparr>port_in := [(10, ''>'', False), (20, ''+CMGS: 1'', False)]\<rparr>))
     = None
   \<and> (\<exists>rs1 rs2.
         events_of (quiet\<lparr>port_in := [(10, ''>'', False), (20, ''+CMGS: 1'', False)]\<rparr>)
           (snd (SendSMS ''+1'' ''hi''
                   (quiet\<lparr>port_in := [(10, ''>'', False), (20, ''+CMGS: 1'', False)]\<rparr>)))
           = [PortWrite (''AT+CMGS=\"+1\"'' @ [CHR 0x0D])] @ rs1
             @ [PortWrite (''hi'' @ [CHR 0x1A])] @ rs2
         \<and> CHR ''>'' \<in> set (concat (map accepted rs1)))
   \<and> fst (SendSMS ''+1'' ''hi'' (quiet\<lparr>port_in := [(10000, [], False)]\<rparr>))
     = Some (PromptTimeout [])
   \<and> 10100 \<le> clock (snd (SendSMS ''+1'' ''hi'' (quiet\<lparr>port_in := [(10000, [], False)]\<rparr>)))"
proof -
  let ?ok = "quiet\<lparr>port_in := [(10, ''>'', False), (20, ''+CMGS: 1'', False)]\<rparr>"
  let ?late = "quiet\<lparr>port_in := [(10000, [], False)]\<rparr>"
  have a: "fst (SendSMS ''+1'' ''hi'' ?ok) = None" by code_simp
  have b: "fst (SendSMS ''+1'' ''hi'' ?late) = Some (PromptTimeout [])" by code_simp
  have q: "pause_events ?ok = []" "resume_events ?ok = []" "clock ?late = 0"
    by (simp_all add: pause_events_def resume_events_def quiet_def)
  from C9_SendSMS_writes_command_then_message_after_prompt[of "''+1''" "''hi''" ?ok] a q
  have c: "\<exists>rs1 rs2.
         events_of ?ok (snd (SendSMS ''+1'' ''hi'' ?ok))
           = [PortWrite (''AT+CMGS=\"+1\"'' @ [CHR 0x0D])] @ rs1
             @ [PortWrite (''hi'' @ [CHR 0x1A])] @ rs2
         \<and> CHR ''>'' \<in> set (concat (map accepted rs1))"
    by auto
  from C9_SendSMS_writes_command_then_message_after_prompt[of "''+1''" "''hi''" ?late] b q
  have d: "10100 \<le> clock (snd (SendSMS ''+1'' ''hi'' ?late))"
    by auto
  from a b c d show ?thesis by blast
qed

section \<open>A handler that is not listening\<close>

lemma snd_ReadSMS: "snd (ReadSMS sscanf w) = snd (snd (sendATCommand ''AT+CMGL=\"ALL\"'' w))"
  by (simp add: ReadSMS_def split: prod.splits option.splits)

lemma snd_ReadNewSMS:
  "snd (ReadNewSMS sscanf w) = snd (snd (sendATCommand ''AT+CMGL=\"REC UNREAD\"'' w))"
  by (simp add: ReadNewSMS_def split: prod.splits option.splits)

lemma snd_DeleteSMS:
  "snd (DeleteSMS index w) = snd (snd (sendATCommand (''AT+CMGD='' @ itoa index) w))"
  by (simp add: DeleteSMS_def split: prod.splits option.splits)

lemma sendATCommand_quiet:
  "\<not> listening w \<Longrightarrow> filter is_handshake (events_of w (snd (snd (sendATCommand cmd w)))) = []"
proof -
  assume l: "\<not> listening w"
  obtain resp err w' where r: "sendATCommand cmd w = (resp, err, w')"
    by (cases "sendATCommand cmd w") auto
  from sendATCommand_log[OF r] obtain es where
    e: "log w' = log w @ pause_events w @ es @ resume_events w" "filter is_handshake es = []"
    by blast
  from transaction_events(2)[OF e] l r show ?thesis by simp
qed

lemma SendSMS_quiet:
  "\<not> listening w \<Longrightarrow> filter is_handshake (events_of w (snd (SendSMS pn msg w))) = []"
proof -
  assume l: "\<not> listening w"
  obtain res w' where r: "SendSMS pn msg w = (res, w')"
    by (cases "SendSMS pn msg w") auto
  from SendSMS_log[OF r] obtain es where
    e: "log w' = log w @ pause_events w @ es @ resume_events w" "filter is_handshake es = []"
    by blast
  from transaction_events(2)[OF e] l r show ?thesis by simp
qed

text \<open>
  Claim C10. While \<open>ListenForIncomingSMS\<close> has not been called the flag \<open>listening\<close> is
  false; then \<open>pauseListener\<close> and \<open>resumeListener\<close> do nothing, and \<open>sendATCommand\<close>,
  \<open>SendSMS\<close> and the public operations that read, delete and query add no channel operation
  to the log. All of them are total functions: each call returns.
\<close>

theorem C10_no_handshake_when_not_listening:
  "\<not> listening w \<Longrightarrow>
     pauseListener w = w \<and> resumeListener w = w
     \<and> filter is_handshake (events_of w (snd (snd (sendATCommand command w)))) = []
     \<and> filter is_handshake (events_of w (snd (SendSMS phoneNumber message w))) = []
     \<and> filter is_handshake (events_of w (snd (ReadSMS sscanf w))) = []
     \<and> filter is_handshake (events_of w (snd (ReadNewSMS sscanf w))) = []
     \<and> filter is_handshake (events_of w (snd (DeleteSMS index w))) = []
     \<and> filter is_handshake (events_of w (snd (snd (GetModemInfo w)))) = []
     \<and> filter is_handshake (events_of w (snd (snd (GetSignalStrength w)))) = []"
  by (simp add: pauseListener_def resumeListener_def sendATCommand_quiet SendSMS_quiet
        snd_ReadSMS snd_ReadNewSMS snd_DeleteSMS GetModemInfo_def GetSignalStrength_def)

theorem C10_no_handshake_when_not_listening_witness:
  "\<not> listening quiet
   \<and> pauseListener quiet = quiet \<and> resumeListener quiet = quiet
   \<and> filter is_handshake (events_of quiet (snd (snd (sendATCommand ''AT'' quiet)))) = []
   \<and> filter is_handshake (events_of quiet (snd (SendSMS ''+1'' ''hi'' quiet))) = []
   \<and> filter is_handshake (events_of quiet (snd (ReadSMS (\<lambda>f s. 0) quiet))) = []
   \<and> filter is_handshake (events_of quiet (snd (ReadNewSMS (\<lambda>f s. 0) quiet))) = []
   \<and> filter is_handshake (events_of quiet (snd (DeleteSMS 1 quiet))) = []
   \<and> filter is_handshake (events_of quiet (snd (snd (GetModemInfo quiet)))) = []
   \<and> filter is_handshake (events_of quiet (snd (snd (GetSignalStrength quiet)))) = []"
proof -
  have a: "\<not> listening quiet" by (simp add: quiet_def)
  from C10_no_handshake_when_not_listening[OF a, of "''AT''" "''+1''" "''hi''" "\<lambda>f s. 0" 1] a
  show ?thesis by blast
qed

section \<open>The lines of a response\<close>

lemma readResponse_refines:
  "\<exists>m. readResponse cmd n acc (map Line raw) =
        (acc @ fst (spec_response n (without_echo cmd raw)),
         fst (snd (spec_response n (without_echo cmd raw))),
         map Line (drop m raw))
       \<and> snd (snd (spec_response n (without_echo cmd raw))) = without_echo cmd (drop m raw)"
proof (induction raw arbitrary: n acc)
  case Nil
  then show ?case by (simp add: without_echo_def)
next
  case (Cons l raw)
  let ?t = "TrimSpace l"
  show ?case
  proof (cases "?t = cmd")
    case True
    from Cons.IH[of n acc] obtain m where
      "readResponse cmd n acc (map Line raw) =
        (acc @ fst (spec_response n (without_echo cmd raw)),
         fst (snd (spec_response n (without_echo cmd raw))), map Line (drop m raw))
       \<and> snd (snd (spec_response n (without_echo cmd raw))) = without_echo cmd (drop m raw)"
      by blast
    with True show ?thesis
      by (intro exI[of _ "Suc m"]) (simp add: without_echo_def)
  next
    case echo: False
    show ?thesis
    proof (cases "?t = []")
      case blank: True
      show ?thesis
      proof (cases "n \<ge> 3")
        case True
        with echo blank show ?thesis
          by (intro exI[of _ "Suc 0"]) (simp add: without_echo_def)
      next
        case False
        from Cons.IH[of "Suc n" acc] obtain m where
          "readResponse cmd (Suc n) acc (map Line raw) =
            (acc @ fst (spec_response (Suc n) (without_echo cmd raw)),
             fst (snd (spec_response (Suc n) (without_echo cmd raw))), map Line (drop m raw))
           \<and> snd (snd (spec_response (Suc n) (without_echo cmd raw)))
               = without_echo cmd (drop m raw)"
          by blast
        with False echo blank show ?thesis
          by (intro exI[of _ "Suc m"]) (simp add: without_echo_def)
      qed
    next
      case nonblank: False
      show ?thesis
      proof (cases "isTerminal ?t")
        case True
        with echo nonblank show ?thesis
          by (intro exI[of _ "Suc 0"]) (simp add: without_echo_def)
      next
        case False
        from Cons.IH[of 0 "acc @ ?t @ [CHR 0x0A]"] obtain m where
          "readResponse cmd 0 (acc @ ?t @ [CHR 0x0A]) (map Line raw) =
            ((acc @ ?t @ [CHR 0x0A]) @ fst (spec_response 0 (without_echo cmd raw)),
             fst (snd (spec_response 0 (without_echo cmd raw))), map Line (drop m raw))
           \<and> snd (snd (spec_response 0 (without_echo cmd raw))) = without_echo cmd (drop m raw)"
          by blast
        with False echo nonblank show ?thesis
          by (intro exI[of _ "Suc m"]) (simp add: without_echo_def case_prod_beta)
      qed
    qed
  qed
qed

lemma readResponse_then_Fail:
  "readResponse cmd n acc (map Line raw) = (acc', False, rest')
   \<Longrightarrow> readResponse cmd n acc (map Line raw @ Fail # rest) = (acc', True, rest)"
proof (induction raw arbitrary: n acc)
  case Nil
  then show ?case by simp
next
  case (Cons l raw)
  let ?t = "TrimSpace l"
  show ?case
  proof (cases "?t = cmd")
    case True
    with Cons show ?thesis by simp
  next
    case echo: False
    show ?thesis
    proof (cases "?t = []")
      case blank: True
      show ?thesis
      proof (cases "n \<ge> 3")
        case True
        with echo blank Cons.prems show ?thesis by simp
      next
        case False
        with echo blank Cons.prems Cons.IH[of "Suc n" acc] show ?thesis by simp
      qed
    next
      case nonblank: False
      show ?thesis
      proof (cases "isTerminal ?t")
        case True
        with echo nonblank Cons.prems show ?thesis by simp
      next
        case False
        with echo nonblank Cons.prems Cons.IH[of 0 "acc @ ?t @ [CHR 0x0A]"] show ?thesis
          by simp
      qed
    qed
  qed
qed

lemma sendATCommand_write_failed:
  assumes "\<not> write_ok w"
  shows "fst (sendATCommand cmd w) = []"
    and "fst (snd (sendATCommand cmd w)) = Some (FailedToWriteCommand TransportError)"
proof -
  obtain e w2 where wr: "port_Write (cmd @ [CHR 0x0D, CHR 0x0A]) (pauseListener w) = (e, w2)"
    by (cases "port_Write (cmd @ [CHR 0x0D, CHR 0x0A]) (pauseListener w)") auto
  from port_Write_frame(6)[OF wr] assms have e by simp
  with wr show "fst (sendATCommand cmd w) = []"
    and "fst (snd (sendATCommand cmd w)) = Some (FailedToWriteCommand TransportError)"
    by (simp_all add: sendATCommand_def)
qed

lemma read_before_timer_lines [simp]:
  "read_before_timer left (map Line raw @ rs) = map Line raw @ read_before_timer left rs"
  by (induction raw) auto

lemma read_before_timer_length: "length (read_before_timer left rs) \<le> length rs"
proof (induction rs arbitrary: left)
  case (Cons r rs)
  then show ?case by (cases r) (auto intro: le_SucI)
qed simp

lemma sendATCommand_written:
  assumes "write_ok w"
    and "readResponse cmd 0 [] (read_before_timer 10000 (reader_in w)) = (response, fin, rest)"
  shows "fst (sendATCommand cmd w) = TrimSpace response"
    and "fst (snd (sendATCommand cmd w)) = (if fin then None else Some CommandTimeout)"
    and "reader_in (snd (snd (sendATCommand cmd w)))
           = drop (length (read_before_timer 10000 (reader_in w)) - length rest) (reader_in w)"
    and "clock (snd (snd (sendATCommand cmd w)))
           = clock w + (if fin
               then waited (take (length (read_before_timer 10000 (reader_in w)) - length rest)
                              (read_before_timer 10000 (reader_in w)))
               else 10000)"
proof -
  let ?script = "read_before_timer 10000 (reader_in w)"
  let ?n = "length ?script - length rest"
  obtain e w2 where wr: "port_Write (cmd @ [CHR 0x0D, CHR 0x0A]) (pauseListener w) = (e, w2)"
    by (cases "port_Write (cmd @ [CHR 0x0D, CHR 0x0A]) (pauseListener w)") auto
  from port_Write_frame(6)[OF wr] assms have e: "\<not> e" by simp
  from port_Write_frame(5)[OF wr] have ri: "reader_in w2 = reader_in w" by simp
  from port_Write_frame(3)[OF wr] have ck: "clock w2 = clock w" by simp
  have n: "length (take ?n ?script) = ?n" by simp
  have rr: "reader_run cmd w2 =
      (response, fin,
       emit (map ReaderRead (take ?n ?script))
         (w2\<lparr>reader_in := drop ?n (reader_in w),
             clock := clock w2 + (if fin then waited (take ?n ?script) else 10000)\<rparr>))"
    unfolding reader_run_def Let_def ri assms(2) prod.case n by (rule refl)
  from wr e rr ck show "fst (sendATCommand cmd w) = TrimSpace response"
    and "fst (snd (sendATCommand cmd w)) = (if fin then None else Some CommandTimeout)"
    and "reader_in (snd (snd (sendATCommand cmd w))) = drop ?n (reader_in w)"
    and "clock (snd (snd (sendATCommand cmd w)))
           = clock w + (if fin then waited (take ?n ?script) else 10000)"
    by (simp_all add: sendATCommand_def resumeListener_def emit_def)
qed

text \<open>
  Claim C3, as amended. The claim: a failed write and a failed read both make
  \<open>sendATCommand\<close> return an error. The write does: the call returns the error and no text.
  A read that fails before a terminal token is seen does not: the reading goroutine signals
  \<open>done\<close> as it does for a terminal line, and the call returns the text read so far with a
  nil error.
\<close>

theorem C3_write_failure_is_an_error_and_read_failure_ends_the_response:
  "(\<not> write_ok w \<longrightarrow>
      fst (sendATCommand command w) = []
      \<and> fst (snd (sendATCommand command w)) = Some (FailedToWriteCommand TransportError))
   \<and> (write_ok w \<and> reader_in w = map Line raw @ Fail # rest
       \<and> readResponse command 0 [] (map Line raw) = (response, False, []) \<longrightarrow>
      fst (sendATCommand command w) = TrimSpace response
      \<and> fst (snd (sendATCommand command w)) = None)"
proof -
  have wf: "fst (sendATCommand command w) = []
      \<and> fst (snd (sendATCommand command w)) = Some (FailedToWriteCommand TransportError)"
    if "\<not> write_ok w"
    using that by (simp add: sendATCommand_write_failed)
  have rf: "fst (sendATCommand command w) = TrimSpace response
      \<and> fst (snd (sendATCommand command w)) = None"
    if a: "write_ok w \<and> reader_in w = map Line raw @ Fail # rest
       \<and> readResponse command 0 [] (map Line raw) = (response, False, [])"
  proof -
    from a have "readResponse command 0 [] (read_before_timer 10000 (reader_in w))
        = (response, True, read_before_timer 10000 rest)"
      by (simp add: readResponse_then_Fail)
    from sendATCommand_written(1,2)[OF _ this] a show ?thesis by simp
  qed
  from wf rf show ?thesis by blast
qed

theorem C3_write_failure_is_an_error_and_read_failure_ends_the_response_witness:
  "\<not> write_ok (quiet\<lparr>write_errs := [True]\<rparr>)
   \<and> fst (sendATCommand ''AT'' (quiet\<lparr>write_errs := [True]\<rparr>)) = []
   \<and> fst (snd (sendATCommand ''AT'' (quiet\<lparr>write_errs := [True]\<rparr>)))
       = Some (FailedToWriteCommand TransportError)
   \<and> write_ok (quiet\<lparr>reader_in := [Line (''+CSQ: 20,99'' @ CRLF), Fail]\<rparr>)
   \<and> readResponse ''AT+CSQ'' 0 [] (map Line [''+CSQ: 20,99'' @ CRLF])
       = (''+CSQ: 20,99'' @ [CHR 0x0A], False, [])
   \<and> fst (sendATCommand ''AT+CSQ'' (quiet\<lparr>reader_in := [Line (''+CSQ: 20,99'' @ CRLF), Fail]\<rparr>))
       = TrimSpace (''+CSQ: 20,99'' @ [CHR 0x0A])
   \<and> fst (snd (sendATCommand ''AT+CSQ''
         (quiet\<lparr>reader_in := [Line (''+CSQ: 20,99'' @ CRLF), Fail]\<rparr>))) = None"
proof -
  let ?w1 = "quiet\<lparr>write_errs := [True]\<rparr>"
  let ?w2 = "quiet\<lparr>reader_in := [Line (''+CSQ: 20,99'' @ CRLF), Fail]\<rparr>"
  have a: "\<not> write_ok ?w1" by (simp add: write_ok_def quiet_def)
  have b: "write_ok ?w2" by (simp add: write_ok_def quiet_def)
  have c: "reader_in ?w2 = map Line [''+CSQ: 20,99'' @ CRLF] @ Fail # []" by simp
  have d: "readResponse ''AT+CSQ'' 0 [] (map Line [''+CSQ: 20,99'' @ CRLF])
       = (''+CSQ: 20,99'' @ [CHR 0x0A], False, [])"
    by code_simp
  from C3_write_failure_is_an_error_and_read_failure_ends_the_response
         [of ?w1 "''AT''" "[]" "[]" "[]"] a
  have e: "fst (sendATCommand ''AT'' ?w1) = []
     \<and> fst (snd (sendATCommand ''AT'' ?w1)) = Some (FailedToWriteCommand TransportError)"
    by blast
  from C3_write_failure_is_an_error_and_read_failure_ends_the_response
         [of ?w2 "''AT+CSQ''" "[''+CSQ: 20,99'' @ CRLF]" "[]" "''+CSQ: 20,99'' @ [CHR 0x0A]"] b c d
  have f: "fst (sendATCommand ''AT+CSQ'' ?w2) = TrimSpace (''+CSQ: 20,99'' @ [CHR 0x0A])
     \<and> fst (snd (sendATCommand ''AT+CSQ'' ?w2)) = None"
    by blast
  from a b d e f show ?thesis by blast
qed

text \<open>
  The claim fails for the read: the reader returns the echo and then an error, and the call
  returns no text and a nil error.
\<close>

theorem C3_counterexample:
  "sendATCommand ''AT'' (quiet\<lparr>reader_in := [Line (''AT'' @ CRLF), Fail]\<rparr>)
     = ([], None,
        quiet\<lparr>log := [PortWrite (''AT'' @ CRLF), ReaderRead (Line (''AT'' @ CRLF)),
                       ReaderRead Fail]\<rparr>)"
  by code_simp

lemma isTerminal_Nil [simp]: "\<not> isTerminal []"
  by (simp add: isTerminal_def)

lemma blank_run_pad_blank:
  "blank_run (replicate n [] @ [] # ls) i = blank_run (replicate (Suc n) [] @ ls) i"
  by (simp add: replicate_app_Cons_same)

lemma blank_run_after_text:
  "l \<noteq> [] \<Longrightarrow> blank_run (pre @ l # ls) (length pre + Suc i) = blank_run ls i"
proof -
  assume l: "l \<noteq> []"
  let ?xs = "rev (take (Suc i) ls)"
  have "take (Suc (length pre + Suc i)) (pre @ l # ls) = pre @ l # take (Suc i) ls"
    by simp
  then have e: "rev (take (Suc (length pre + Suc i)) (pre @ l # ls)) = ?xs @ l # rev pre"
    by simp
  have "takeWhile (\<lambda>l. l = []) (?xs @ l # rev pre) = takeWhile (\<lambda>l. l = []) ?xs"
  proof (cases "\<forall>x\<in>set ?xs. x = []")
    case True
    then have "takeWhile (\<lambda>l. l = []) (?xs @ l # rev pre)
               = ?xs @ takeWhile (\<lambda>l. l = []) (l # rev pre)"
      by (intro takeWhile_append2) simp
    also have "\<dots> = ?xs" using l by simp
    finally have "takeWhile (\<lambda>l. l = []) (?xs @ l # rev pre) = ?xs" .
    moreover have "takeWhile (\<lambda>l. l = []) ?xs = ?xs" using True by simp
    ultimately show ?thesis by (simp only:)
  next
    case False
    then obtain x where "x \<in> set ?xs" "x \<noteq> []" by auto
    then show ?thesis by (intro takeWhile_append1)
  qed
  with e show ?thesis by (simp only: blank_run_def)
qed

lemma blank_run_at_text:
  "l \<noteq> [] \<Longrightarrow> blank_run (pre @ l # ls) (length pre) = 0"
  by (simp add: blank_run_def)

lemma blank_run_pad:
  "blank_run (replicate n [] @ [] # ls) n = Suc n"
proof -
  have "take (Suc n) (replicate n [] @ [] # ls) = replicate (Suc n) []"
    by (simp add: replicate_app_Cons_same)
  then show ?thesis by (simp add: blank_run_def)
qed

lemma nth_pad: "(replicate n x @ ls) ! (n + i) = ls ! i"
  by (simp add: nth_append)

lemma spec_response_meaning:
  "n \<le> 3 \<Longrightarrow> spec_response n ls = (t, s, u) \<Longrightarrow>
     \<exists>k\<le>length ls. u = drop k ls \<and> t = kept_text (take k ls)
        \<and> (\<forall>i. Suc i < k \<longrightarrow> \<not> stops_at (replicate n [] @ ls) (n + i))
        \<and> (s \<longleftrightarrow> 0 < k \<and> stops_at (replicate n [] @ ls) (n + (k - 1)))
        \<and> (\<not> s \<longrightarrow> k = length ls)"
proof (induction ls arbitrary: n t s u)
  case Nil
  then show ?case by (simp add: kept_text_def)
next
  case (Cons l ls)
  show ?case
  proof (cases "l = []")
    case blank: True
    show ?thesis
    proof (cases "n \<ge> 3")
      case True
      with Cons.prems have n3: "n = 3" by simp
      from blank True Cons.prems have r: "t = []" "s" "u = ls" by simp_all
      have "stops_at (replicate n [] @ l # ls) (n + 0)"
        using blank n3 blank_run_pad[of n ls] by (simp add: stops_at_def)
      with r blank show ?thesis
        by (intro exI[of _ "Suc 0"]) (simp add: kept_text_def)
    next
      case False
      with blank Cons.prems have rec: "spec_response (Suc n) ls = (t, s, u)" by simp
      from False have "Suc n \<le> 3" by simp
      from Cons.IH[OF this rec] obtain k where k: "k \<le> length ls" "u = drop k ls"
        "t = kept_text (take k ls)"
        "\<forall>i. Suc i < k \<longrightarrow> \<not> stops_at (replicate (Suc n) [] @ ls) (Suc n + i)"
        "s \<longleftrightarrow> 0 < k \<and> stops_at (replicate (Suc n) [] @ ls) (Suc n + (k - 1))"
        "\<not> s \<longrightarrow> k = length ls"
        by blast
      have pad: "replicate n [] @ l # ls = replicate (Suc n) [] @ ls"
        using blank by (simp add: replicate_app_Cons_same)
      have first: "\<not> stops_at (replicate n [] @ l # ls) (n + 0)"
        using blank False blank_run_pad[of n ls] by (simp add: stops_at_def nth_append)
      have a: "\<forall>i. Suc i < Suc k \<longrightarrow> \<not> stops_at (replicate n [] @ l # ls) (n + i)"
      proof (intro allI impI)
        fix i assume "Suc i < Suc k"
        show "\<not> stops_at (replicate n [] @ l # ls) (n + i)"
        proof (cases i)
          case 0
          with first show ?thesis by simp
        next
          case (Suc j)
          with \<open>Suc i < Suc k\<close> k(4) have "\<not> stops_at (replicate (Suc n) [] @ ls) (Suc n + j)"
            by simp
          with Suc show ?thesis unfolding pad by simp
        qed
      qed
      have b: "s \<longleftrightarrow> 0 < Suc k \<and> stops_at (replicate n [] @ l # ls) (n + (Suc k - 1))"
      proof (cases k)
        case 0
        with k(5) first show ?thesis by simp
      next
        case (Suc j)
        with k(5) show ?thesis unfolding pad by simp
      qed
      have c1: "Suc k \<le> length (l # ls)" using k(1) by simp
      have c2: "u = drop (Suc k) (l # ls)" using k(2) by simp
      have c3: "t = kept_text (take (Suc k) (l # ls))"
        using k(3) blank by (simp add: kept_text_def)
      have c5: "\<not> s \<longrightarrow> Suc k = length (l # ls)" using k(6) by simp
      from c1 c2 c3 a b c5 show ?thesis by blast
    qed
  next
    case nonblank: False
    show ?thesis
    proof (cases "isTerminal l")
      case True
      with nonblank Cons.prems have r: "t = l @ [CHR 0x0A]" "s" "u = ls" by simp_all
      have "stops_at (replicate n [] @ l # ls) (n + 0)"
        using True by (simp add: stops_at_def nth_append)
      with r nonblank show ?thesis
        by (intro exI[of _ "Suc 0"]) (simp add: kept_text_def)
    next
      case False
      obtain t' s' u' where rec: "spec_response 0 ls = (t', s', u')"
        by (cases "spec_response 0 ls") auto
      with nonblank False Cons.prems have r: "t = l @ [CHR 0x0A] @ t'" "s = s'" "u = u'"
        by simp_all
      have "(0::nat) \<le> 3" by simp
      from Cons.IH[OF this rec] obtain k where k0: "k \<le> length ls" "u' = drop k ls"
        "t' = kept_text (take k ls)"
        "\<forall>i. Suc i < k \<longrightarrow> \<not> stops_at (replicate 0 [] @ ls) (0 + i)"
        "s' \<longleftrightarrow> 0 < k \<and> stops_at (replicate 0 [] @ ls) (0 + (k - 1))"
        "\<not> s' \<longrightarrow> k = length ls"
        by blast
      from k0(4) have k4: "\<forall>i. Suc i < k \<longrightarrow> \<not> stops_at ls i" by simp
      from k0(5) have k5: "s' \<longleftrightarrow> 0 < k \<and> stops_at ls (k - 1)" by simp
      note k = k0(1-3) k4 k5 k0(6)
      have shift: "stops_at (replicate n [] @ l # ls) (n + Suc i) = stops_at ls i" for i
        using nonblank blank_run_after_text[of l "replicate n []" ls i]
        by (simp add: stops_at_def nth_append)
      have first: "\<not> stops_at (replicate n [] @ l # ls) (n + 0)"
        using nonblank False blank_run_at_text[of l "replicate n []" ls]
        by (simp add: stops_at_def nth_append)
      have a: "\<forall>i. Suc i < Suc k \<longrightarrow> \<not> stops_at (replicate n [] @ l # ls) (n + i)"
      proof (intro allI impI)
        fix i assume "Suc i < Suc k"
        show "\<not> stops_at (replicate n [] @ l # ls) (n + i)"
        proof (cases i)
          case 0
          with first show ?thesis by simp
        next
          case (Suc j)
          with \<open>Suc i < Suc k\<close> k(4) have "\<not> stops_at ls j" by simp
          with Suc shift show ?thesis by simp
        qed
      qed
      have b: "s \<longleftrightarrow> 0 < Suc k \<and> stops_at (replicate n [] @ l # ls) (n + (Suc k - 1))"
      proof (cases k)
        case 0
        with k(5) r first show ?thesis by simp
      next
        case (Suc j)
        with k(5) r shift[of j] show ?thesis by simp
      qed
      have c1: "Suc k \<le> length (l # ls)" using k(1) by simp
      have c2: "u = drop (Suc k) (l # ls)" using k(2) r by simp
      have c3: "t = kept_text (take (Suc k) (l # ls))"
        using k(3) r nonblank by (simp add: kept_text_def)
      have c5: "\<not> s \<longrightarrow> Suc k = length (l # ls)" using k(6) r by simp
      from c1 c2 c3 a b c5 show ?thesis by blast
    qed
  qed
qed

text \<open>
  Claim C6. For every sequence of lines that the reader returns, \<open>sendATCommand\<close> discards
  the lines equal to the command text and reads the others up to the first line that
  contains \<open>OK\<close>, \<open>ERROR\<close> or \<open>+CME ERROR\<close> or that is the fourth blank line in a row: \<open>k\<close>
  lines, with no such line before the last of them. The text it returns is made of those of
  the \<open>k\<close> lines that are not empty, each trimmed and followed by a newline, the terminal line
  included, and is trimmed as a whole. The call returns no error exactly when the reading
  stopped at such a line; otherwise every line was read and the error is the timeout. The
  lines after the stop are left unread. The rule for the echo comes first: a line equal to
  the command text is discarded even when it is blank or holds a terminal token.
\<close>

theorem C6_response_lines_follow_the_reading_rules:
  "write_ok w \<Longrightarrow> reader_in w = map Line raw \<Longrightarrow>
     \<exists>k m. k \<le> length (without_echo command raw)
       \<and> fst (sendATCommand command w)
           = TrimSpace (kept_text (take k (without_echo command raw)))
       \<and> (\<forall>i. Suc i < k \<longrightarrow> \<not> stops_at (without_echo command raw) i)
       \<and> (fst (snd (sendATCommand command w)) = None
            \<longleftrightarrow> 0 < k \<and> stops_at (without_echo command raw) (k - 1))
       \<and> (fst (snd (sendATCommand command w)) \<noteq> None
            \<longrightarrow> fst (snd (sendATCommand command w)) = Some CommandTimeout
                \<and> k = length (without_echo command raw))
       \<and> reader_in (snd (snd (sendATCommand command w))) = map Line (drop m raw)
       \<and> without_echo command (drop m raw) = drop k (without_echo command raw)"
proof -
  assume ok: "write_ok w" and ri: "reader_in w = map Line raw"
  let ?ls = "without_echo command raw"
  obtain t s u where sp: "spec_response 0 ?ls = (t, s, u)"
    by (cases "spec_response 0 ?ls") auto
  from readResponse_refines[of command 0 "[]" raw] sp obtain m where
    rr: "readResponse command 0 [] (map Line raw) = (t, s, map Line (drop m raw))"
    and un: "u = without_echo command (drop m raw)"
    by auto
  have "(0::nat) \<le> 3" by simp
  from spec_response_meaning[OF this sp] obtain k where k: "k \<le> length ?ls" "u = drop k ?ls"
    "t = kept_text (take k ?ls)"
    "\<forall>i. Suc i < k \<longrightarrow> \<not> stops_at (replicate 0 [] @ ?ls) (0 + i)"
    "s \<longleftrightarrow> 0 < k \<and> stops_at (replicate 0 [] @ ?ls) (0 + (k - 1))"
    "\<not> s \<longrightarrow> k = length ?ls"
    by blast
  from k(4) have k4: "\<forall>i. Suc i < k \<longrightarrow> \<not> stops_at ?ls i" by simp
  from k(5) have k5: "s \<longleftrightarrow> 0 < k \<and> stops_at ?ls (k - 1)" by simp
  have script: "read_before_timer 10000 (reader_in w) = map Line raw"
    using ri read_before_timer_lines[of 10000 raw "[]"] by simp
  with rr have "readResponse command 0 [] (read_before_timer 10000 (reader_in w))
      = (t, s, map Line (drop m raw))"
    by simp
  note sw = sendATCommand_written[OF ok this]
  have c6: "reader_in (snd (snd (sendATCommand command w))) = map Line (drop m raw)"
  proof -
    from sw(3) script ri have "reader_in (snd (snd (sendATCommand command w)))
        = drop (length raw - (length raw - m)) (map Line raw)"
      by simp
    also have "\<dots> = map Line (drop m raw)"
      by (cases "m \<le> length raw") (simp_all add: drop_map)
    finally show ?thesis .
  qed
  have c2: "fst (sendATCommand command w) = TrimSpace (kept_text (take k ?ls))"
    using sw(1) k(3) by simp
  have c4: "fst (snd (sendATCommand command w)) = None \<longleftrightarrow> 0 < k \<and> stops_at ?ls (k - 1)"
    using sw(2) k5 by simp
  have c5: "fst (snd (sendATCommand command w)) \<noteq> None
            \<longrightarrow> fst (snd (sendATCommand command w)) = Some CommandTimeout \<and> k = length ?ls"
    using sw(2) k(6) by simp
  have c7: "without_echo command (drop m raw) = drop k ?ls"
    using un k(2) by simp
  from k(1) c2 k4 c4 c5 c6 c7 show ?thesis
    by (intro exI[of _ k] exI[of _ m] conjI)
qed

theorem C6_response_lines_follow_the_reading_rules_witness:
  "write_ok (quiet\<lparr>reader_in := map Line [''AT+CSQ'' @ CRLF, CRLF, ''+CSQ: 20,99'' @ CRLF,
                                             ''OK'' @ CRLF, ''late'' @ CRLF]\<rparr>)
   \<and> sendATCommand ''AT+CSQ''
        (quiet\<lparr>reader_in := map Line [''AT+CSQ'' @ CRLF, CRLF, ''+CSQ: 20,99'' @ CRLF,
                                        ''OK'' @ CRLF, ''late'' @ CRLF]\<rparr>)
       = (''+CSQ: 20,99'' @ [CHR 0x0A] @ ''OK'', None,
          quiet\<lparr>reader_in := [Line (''late'' @ CRLF)],
                 log := [PortWrite (''AT+CSQ'' @ CRLF), ReaderRead (Line (''AT+CSQ'' @ CRLF)),
                         ReaderRead (Line CRLF), ReaderRead (Line (''+CSQ: 20,99'' @ CRLF)),
                         ReaderRead (Line (''OK'' @ CRLF))]\<rparr>)
   \<and> (\<exists>k. 0 < k
         \<and> stops_at (without_echo ''AT+CSQ'' [''AT+CSQ'' @ CRLF, CRLF, ''+CSQ: 20,99'' @ CRLF,
                                              ''OK'' @ CRLF, ''late'' @ CRLF]) (k - 1)
         \<and> ''+CSQ: 20,99'' @ [CHR 0x0A] @ ''OK''
             = TrimSpace (kept_text (take k (without_echo ''AT+CSQ''
                 [''AT+CSQ'' @ CRLF, CRLF, ''+CSQ: 20,99'' @ CRLF, ''OK'' @ CRLF,
                  ''late'' @ CRLF]))))"
proof -
  let ?raw = "[''AT+CSQ'' @ CRLF, CRLF, ''+CSQ: 20,99'' @ CRLF, ''OK'' @ CRLF, ''late'' @ CRLF]"
  let ?w = "quiet\<lparr>reader_in := map Line ?raw\<rparr>"
  have a: "write_ok ?w" by (simp add: write_ok_def quiet_def)
  have b: "reader_in ?w = map Line ?raw" by simp
  have c: "sendATCommand ''AT+CSQ'' ?w
       = (''+CSQ: 20,99'' @ [CHR 0x0A] @ ''OK'', None,
          quiet\<lparr>reader_in := [Line (''late'' @ CRLF)],
                 log := [PortWrite (''AT+CSQ'' @ CRLF), ReaderRead (Line (''AT+CSQ'' @ CRLF)),
                         ReaderRead (Line CRLF), ReaderRead (Line (''+CSQ: 20,99'' @ CRLF)),
                         ReaderRead (Line (''OK'' @ CRLF))]\<rparr>)"
    by code_simp
  from C6_response_lines_follow_the_reading_rules[OF a b, of "''AT+CSQ''"]
  have d: "\<exists>k. 0 < k \<and> stops_at (without_echo ''AT+CSQ'' ?raw) (k - 1)
      \<and> ''+CSQ: 20,99'' @ [CHR 0x0A] @ ''OK''
          = TrimSpace (kept_text (take k (without_echo ''AT+CSQ'' ?raw)))"
  proof (elim exE conjE)
    fix k m
    assume t: "fst (sendATCommand ''AT+CSQ'' ?w)
                 = TrimSpace (kept_text (take k (without_echo ''AT+CSQ'' ?raw)))"
      and e: "(fst (snd (sendATCommand ''AT+CSQ'' ?w)) = None)
                = (0 < k \<and> stops_at (without_echo ''AT+CSQ'' ?raw) (k - 1))"
    from e have e': "0 < k" "stops_at (without_echo ''AT+CSQ'' ?raw) (k - 1)"
      unfolding c fst_conv snd_conv by simp_all
    from t have t': "''+CSQ: 20,99'' @ [CHR 0x0A] @ ''OK''
          = TrimSpace (kept_text (take k (without_echo ''AT+CSQ'' ?raw)))"
      unfolding c fst_conv .
    from e' t' show ?thesis by (intro exI[of _ k] conjI)
  qed
  from a c d show ?thesis by (intro conjI)
qed

section \<open>The timer of a command\<close>

text \<open>
  The time a call of \<open>sendATCommand\<close> takes: the waits of the reads it has made when \<open>done\<close>
  is signalled, and ten seconds when the timer fires.
\<close>

lemma timed_lines_simps [simp]:
  "timed_lines [] = []"
  "timed_lines ((d, l) # ls) = Wait d # Line l # timed_lines ls"
  by (simp_all add: timed_lines_def)

lemma waited_nonneg: "0 \<le> waited rs"
  by (induction rs rule: waited.induct) auto

lemma waited_take: "waited (take n rs) \<le> waited rs"
proof (induction rs arbitrary: n)
  case (Cons r rs)
  show ?case
  proof (cases n)
    case 0
    then show ?thesis using waited_nonneg[of "r # rs"] by simp
  next
    case (Suc m)
    with Cons[of m] show ?thesis by (cases r) auto
  qed
qed simp

lemma waited_read_before_timer: "0 < left \<Longrightarrow> waited (read_before_timer left rs) < left"
proof (induction rs arbitrary: left)
  case (Cons r rs)
  show ?case
  proof (cases r)
    case (Wait d)
    show ?thesis
    proof (cases "left \<le> int d")
      case True
      with Wait Cons.prems show ?thesis by simp
    next
      case False
      with Cons.IH[of "left - int d"] Wait show ?thesis by simp
    qed
  qed (use Cons in auto)
qed simp

lemma sendATCommand_clock:
  "(fst (snd (sendATCommand cmd w)) = Some CommandTimeout
      \<longrightarrow> clock (snd (snd (sendATCommand cmd w))) = clock w + 10000)
   \<and> (fst (snd (sendATCommand cmd w)) = None
      \<longrightarrow> clock (snd (snd (sendATCommand cmd w))) < clock w + 10000)"
proof (cases "write_ok w")
  case False
  then show ?thesis by (simp add: sendATCommand_write_failed)
next
  case True
  let ?script = "read_before_timer 10000 (reader_in w)"
  obtain response fin rest where rr: "readResponse cmd 0 [] ?script = (response, fin, rest)"
    by (cases "readResponse cmd 0 [] ?script") auto
  note sw = sendATCommand_written[OF True rr]
  have "waited (take (length ?script - length rest) ?script) \<le> waited ?script"
    by (rule waited_take)
  also have "\<dots> < 10000" by (rule waited_read_before_timer) simp
  finally show ?thesis using sw(2) sw(4) by simp
qed

lemma read_before_timer_timed_lines:
  "int (sum_list (map fst a)) < left \<Longrightarrow>
     read_before_timer left (timed_lines a @ rest)
       = timed_lines a @ read_before_timer (left - int (sum_list (map fst a))) rest"
proof (induction a arbitrary: left)
  case (Cons p a)
  obtain d l where p: "p = (d, l)" by (cases p)
  from Cons.prems p have "int (sum_list (map fst a)) < left - int d" by simp
  from Cons.IH[OF this] Cons.prems p show ?case by (simp add: algebra_simps)
qed simp

lemma readResponse_timed_lines:
  "readResponse cmd n acc (map Line (map snd a)) = (acc', False, r0) \<Longrightarrow>
   rest = [] \<or> (\<exists>later. rest = Expired # later) \<Longrightarrow>
     fst (readResponse cmd n acc (timed_lines a @ rest)) = acc'
     \<and> \<not> fst (snd (readResponse cmd n acc (timed_lines a @ rest)))"
proof (induction a arbitrary: n acc)
  case Nil
  then show ?case by auto
next
  case (Cons p a)
  obtain d l where p: "p = (d, l)" by (cases p)
  let ?t = "TrimSpace l"
  show ?case
  proof (cases "?t = cmd")
    case True
    with Cons.prems p Cons.IH[of n acc] show ?thesis by simp
  next
    case echo: False
    show ?thesis
    proof (cases "?t = []")
      case blank: True
      show ?thesis
      proof (cases "n \<ge> 3")
        case True
        with echo blank Cons.prems p show ?thesis by simp
      next
        case False
        with echo blank Cons.prems p Cons.IH[of "Suc n" acc] show ?thesis by simp
      qed
    next
      case nonblank: False
      show ?thesis
      proof (cases "isTerminal ?t")
        case True
        with echo nonblank Cons.prems p show ?thesis by simp
      next
        case False
        with echo nonblank Cons.prems p Cons.IH[of 0 "acc @ ?t @ [CHR 0x0A]"] show ?thesis
          by simp
      qed
    qed
  qed
qed

lemma no_stop_response:
  assumes "\<forall>i < length (without_echo cmd raw). \<not> stops_at (without_echo cmd raw) i"
  shows "\<exists>r0. readResponse cmd 0 [] (map Line raw) = (kept_text (without_echo cmd raw), False, r0)"
proof -
  let ?ls = "without_echo cmd raw"
  obtain t s u where sp: "spec_response 0 ?ls = (t, s, u)"
    by (cases "spec_response 0 ?ls") auto
  from readResponse_refines[of cmd 0 "[]" raw] sp obtain m where
    rr: "readResponse cmd 0 [] (map Line raw) = (t, s, map Line (drop m raw))"
    by auto
  have "(0::nat) \<le> 3" by simp
  from spec_response_meaning[OF this sp] obtain k where k: "k \<le> length ?ls"
    "t = kept_text (take k ?ls)"
    "s \<longleftrightarrow> 0 < k \<and> stops_at (replicate 0 [] @ ?ls) (0 + (k - 1))"
    "\<not> s \<longrightarrow> k = length ?ls"
    by blast
  have ns: "\<not> s"
  proof
    assume s
    with k(3) have "0 < k" and st: "stops_at ?ls (k - 1)" by simp_all
    with k(1) have "k - 1 < length ?ls" by simp
    with assms st show False by blast
  qed
  with k(4) k(2) have "t = kept_text ?ls" by simp
  with rr ns show ?thesis by (intro exI[of _ "map Line (drop m raw)"]) simp
qed

lemma timeout_scenario:
  assumes ok: "write_ok w" and ri: "reader_in w = timed_lines arrived @ rest"
    and intime: "int (sum_list (map fst arrived)) < 10000"
    and late: "rest = [] \<or> (\<exists>later. rest = Expired # later)
          \<or> (\<exists>d later. rest = Wait d # later
                \<and> 10000 < int (sum_list (map fst arrived)) + int d)"
    and nostop: "\<forall>i < length (without_echo command (map snd arrived)).
            \<not> stops_at (without_echo command (map snd arrived)) i"
  shows "fst (sendATCommand command w)
           = TrimSpace (kept_text (without_echo command (map snd arrived)))"
    and "fst (snd (sendATCommand command w)) = Some CommandTimeout"
    and "clock (snd (snd (sendATCommand command w))) = clock w + 10000"
proof -
  let ?left = "10000 - int (sum_list (map fst arrived))"
  let ?script = "read_before_timer 10000 (reader_in w)"
  have script: "?script = timed_lines arrived @ read_before_timer ?left rest"
    using ri read_before_timer_timed_lines[OF intime] by simp
  from late have tail: "read_before_timer ?left rest = []
      \<or> (\<exists>later. read_before_timer ?left rest = Expired # later)"
    by auto
  from no_stop_response[OF nostop] obtain r0 where
    "readResponse command 0 [] (map Line (map snd arrived))
       = (kept_text (without_echo command (map snd arrived)), False, r0)"
    by blast
  from readResponse_timed_lines[OF this tail] script
  have r: "fst (readResponse command 0 [] ?script)
             = kept_text (without_echo command (map snd arrived))"
    "\<not> fst (snd (readResponse command 0 [] ?script))"
    by simp_all
  obtain response fin rest' where rr: "readResponse command 0 [] ?script = (response, fin, rest')"
    by (cases "readResponse command 0 [] ?script") auto
  note sw = sendATCommand_written[OF ok rr]
  from r rr have "response = kept_text (without_echo command (map snd arrived))" "\<not> fin"
    by simp_all
  with sw show "fst (sendATCommand command w)
           = TrimSpace (kept_text (without_echo command (map snd arrived)))"
    and "fst (snd (sendATCommand command w)) = Some CommandTimeout"
    and "clock (snd (snd (sendATCommand command w))) = clock w + 10000"
    by simp_all
qed

text \<open>
  Waiting changes nothing as long as every line arrives before the timer fires: the text and
  the error are those of the same lines arriving at once.
\<close>

lemma readResponse_waits:
  "fst (readResponse cmd n acc (timed_lines a))
     = fst (readResponse cmd n acc (map Line (map snd a)))
   \<and> fst (snd (readResponse cmd n acc (timed_lines a)))
     = fst (snd (readResponse cmd n acc (map Line (map snd a))))"
proof (induction a arbitrary: n acc)
  case Nil
  then show ?case by simp
next
  case (Cons p a)
  obtain d l where p: "p = (d, l)" by (cases p)
  let ?t = "TrimSpace l"
  show ?case
  proof (cases "?t = cmd")
    case True
    with p Cons.IH[of n acc] show ?thesis by simp
  next
    case echo: False
    show ?thesis
    proof (cases "?t = []")
      case blank: True
      show ?thesis
      proof (cases "n \<ge> 3")
        case True
        with echo blank p show ?thesis by simp
      next
        case False
        with echo blank p Cons.IH[of "Suc n" acc] show ?thesis by simp
      qed
    next
      case nonblank: False
      show ?thesis
      proof (cases "isTerminal ?t")
        case True
        with echo nonblank p show ?thesis by simp
      next
        case False
        with echo nonblank p Cons.IH[of 0 "acc @ ?t @ [CHR 0x0A]"] show ?thesis
          by simp
      qed
    qed
  qed
qed

lemma waits_before_the_timer:
  assumes ok: "write_ok w" and ri: "reader_in w = timed_lines a"
    and intime: "int (sum_list (map fst a)) < 10000"
  shows "fst (sendATCommand cmd w)
           = fst (sendATCommand cmd (w\<lparr>reader_in := map Line (map snd a)\<rparr>))"
    and "fst (snd (sendATCommand cmd w))
           = fst (snd (sendATCommand cmd (w\<lparr>reader_in := map Line (map snd a)\<rparr>)))"
proof -
  let ?v = "w\<lparr>reader_in := map Line (map snd a)\<rparr>"
  have s1: "read_before_timer 10000 (reader_in w) = timed_lines a"
    using ri read_before_timer_timed_lines[OF intime, of "[]"] by simp
  have s2: "read_before_timer 10000 (reader_in ?v) = map Line (map snd a)"
    using read_before_timer_lines[of 10000 "map snd a" "[]"] by simp
  have ok': "write_ok ?v" using ok by (simp add: write_ok_def)
  obtain r1 f1 x1 where a1: "readResponse cmd 0 [] (read_before_timer 10000 (reader_in w))
      = (r1, f1, x1)"
    by (cases "readResponse cmd 0 [] (read_before_timer 10000 (reader_in w))") auto
  obtain r2 f2 x2 where a2: "readResponse cmd 0 [] (read_before_timer 10000 (reader_in ?v))
      = (r2, f2, x2)"
    by (cases "readResponse cmd 0 [] (read_before_timer 10000 (reader_in ?v))") auto
  from readResponse_waits[of cmd 0 "[]" a] a1 a2 s1 s2 have "r1 = r2" "f1 = f2" by simp_all
  with sendATCommand_written(1,2)[OF ok a1] sendATCommand_written(1,2)[OF ok' a2]
  show "fst (sendATCommand cmd w) = fst (sendATCommand cmd ?v)"
    and "fst (snd (sendATCommand cmd w)) = fst (snd (sendATCommand cmd ?v))"
    by simp_all
qed

text \<open>
  Claim C7. When no line that ends the reading arrives in the ten seconds after the command
  was written, \<open>sendATCommand\<close> returns the text of the lines that did arrive, trimmed,
  together with the error \<open>command timeout\<close>, and it returns when the timer fires: ten
  seconds after the write (the handshake and the write take no time here). The lines
  \<open>arrived\<close> come one after the other, each after its own wait, all of them before the
  timer fires, and none of them ends the reading; after them nothing arrives in time: the
  script ends, or the next read is still blocked when the timer fires. A read that fails is
  not among them: it ends the call with no error (claim C3). In every call the timeout
  error is returned ten seconds after the write and not earlier, and a call that returns no
  error does not take longer. \<open>sendATCommand\<close> is a total function: each call returns.
\<close>

theorem C7_timeout_comes_after_ten_seconds_with_the_partial_text:
  "(write_ok w \<and> reader_in w = timed_lines arrived @ rest
      \<and> int (sum_list (map fst arrived)) < 10000
      \<and> (rest = [] \<or> (\<exists>later. rest = Expired # later)
          \<or> (\<exists>d later. rest = Wait d # later
                \<and> 10000 < int (sum_list (map fst arrived)) + int d))
      \<and> (\<forall>i < length (without_echo command (map snd arrived)).
            \<not> stops_at (without_echo command (map snd arrived)) i)
     \<longrightarrow> fst (sendATCommand command w)
           = TrimSpace (kept_text (without_echo command (map snd arrived)))
         \<and> fst (snd (sendATCommand command w)) = Some CommandTimeout
         \<and> clock (snd (snd (sendATCommand command w))) = clock w + 10000)
   \<and> (fst (snd (sendATCommand command w)) = Some CommandTimeout
        \<longrightarrow> clock (snd (snd (sendATCommand command w))) = clock w + 10000)
   \<and> (fst (snd (sendATCommand command w)) = None
        \<longrightarrow> clock (snd (snd (sendATCommand command w))) \<le> clock w + 10000)"
proof -
  have a: "fst (sendATCommand command w)
           = TrimSpace (kept_text (without_echo command (map snd arrived)))
         \<and> fst (snd (sendATCommand command w)) = Some CommandTimeout
         \<and> clock (snd (snd (sendATCommand command w))) = clock w + 10000"
    if h: "write_ok w \<and> reader_in w = timed_lines arrived @ rest
      \<and> int (sum_list (map fst arrived)) < 10000
      \<and> (rest = [] \<or> (\<exists>later. rest = Expired # later)
          \<or> (\<exists>d later. rest = Wait d # later
                \<and> 10000 < int (sum_list (map fst arrived)) + int d))
      \<and> (\<forall>i < length (without_echo command (map snd arrived)).
            \<not> stops_at (without_echo command (map snd arrived)) i)"
  proof -
    from h have h1: "write_ok w" and h2: "reader_in w = timed_lines arrived @ rest"
      and h3: "int (sum_list (map fst arrived)) < 10000"
      and h4: "rest = [] \<or> (\<exists>later. rest = Expired # later)
          \<or> (\<exists>d later. rest = Wait d # later
                \<and> 10000 < int (sum_list (map fst arrived)) + int d)"
      and h5: "\<forall>i < length (without_echo command (map snd arrived)).
            \<not> stops_at (without_echo command (map snd arrived)) i"
      by blast+
    from timeout_scenario[OF h1 h2 h3 h4 h5] show ?thesis by (intro conjI)
  qed
  from sendATCommand_clock[of command w]
  have b: "fst (snd (sendATCommand command w)) = Some CommandTimeout
        \<longrightarrow> clock (snd (snd (sendATCommand command w))) = clock w + 10000"
    and c: "fst (snd (sendATCommand command w)) = None
        \<longrightarrow> clock (snd (snd (sendATCommand command w))) \<le> clock w + 10000"
    by auto
  from a b c show ?thesis by blast
qed


theorem C7_timeout_comes_after_ten_seconds_with_the_partial_text_witness:
  "sendATCommand ''AT+CSQ''
      (quiet\<lparr>reader_in := [Wait 3000, Line (''AT+CSQ'' @ CRLF),
                             Wait 2000, Line (''+CSQ: 20,99'' @ CRLF),
                             Wait 6000, Line (''OK'' @ CRLF)]\<rparr>)
     = (''+CSQ: 20,99'', Some CommandTimeout,
        quiet\<lparr>reader_in := [Wait 6000, Line (''OK'' @ CRLF)], clock := 10000,
               log := [PortWrite (''AT+CSQ'' @ CRLF), ReaderRead (Wait 3000),
                       ReaderRead (Line (''AT+CSQ'' @ CRLF)), ReaderRead (Wait 2000),
                       ReaderRead (Line (''+CSQ: 20,99'' @ CRLF))]\<rparr>)
   \<and> TrimSpace (kept_text (without_echo ''AT+CSQ''
          (map snd [(3000::nat, ''AT+CSQ'' @ CRLF), (2000, ''+CSQ: 20,99'' @ CRLF)])))
     = ''+CSQ: 20,99''
   \<and> sendATCommand ''AT+CSQ''
      (quiet\<lparr>reader_in := [Wait 3000, Line (''+CSQ: 20,99'' @ CRLF),
                             Wait 6000, Line (''OK'' @ CRLF)]\<rparr>)
     = (''+CSQ: 20,99'' @ [CHR 0x0A] @ ''OK'', None,
        quiet\<lparr>reader_in := [], clock := 9000,
               log := [PortWrite (''AT+CSQ'' @ CRLF), ReaderRead (Wait 3000),
                       ReaderRead (Line (''+CSQ: 20,99'' @ CRLF)), ReaderRead (Wait 6000),
                       ReaderRead (Line (''OK'' @ CRLF))]\<rparr>)
   \<and> clock (snd (snd (sendATCommand ''AT+CSQ''
        (quiet\<lparr>reader_in := [Wait 3000, Line (''+CSQ: 20,99'' @ CRLF),
                               Wait 6000, Line (''OK'' @ CRLF)]\<rparr>))))
     \<le> clock (quiet\<lparr>reader_in := [Wait 3000, Line (''+CSQ: 20,99'' @ CRLF),
                                      Wait 6000, Line (''OK'' @ CRLF)]\<rparr>) + 10000"
proof -
  let ?arrived = "[(3000::nat, ''AT+CSQ'' @ CRLF), (2000, ''+CSQ: 20,99'' @ CRLF)]"
  let ?rest = "[Wait 6000, Line (''OK'' @ CRLF)]"
  let ?w = "quiet\<lparr>reader_in := [Wait 3000, Line (''AT+CSQ'' @ CRLF),
                                    Wait 2000, Line (''+CSQ: 20,99'' @ CRLF),
                                    Wait 6000, Line (''OK'' @ CRLF)]\<rparr>"
  let ?v = "quiet\<lparr>reader_in := [Wait 3000, Line (''+CSQ: 20,99'' @ CRLF),
                                    Wait 6000, Line (''OK'' @ CRLF)]\<rparr>"
  have a: "write_ok ?w" by (simp add: write_ok_def quiet_def)
  have b: "reader_in ?w = timed_lines ?arrived @ ?rest" by simp
  have c: "int (sum_list (map fst ?arrived)) < 10000" by simp
  have d: "?rest = [] \<or> (\<exists>later. ?rest = Expired # later)
          \<or> (\<exists>d later. ?rest = Wait d # later
                \<and> 10000 < int (sum_list (map fst ?arrived)) + int d)"
    by simp
  have ls: "without_echo ''AT+CSQ'' (map snd ?arrived) = [''+CSQ: 20,99'']" by code_simp
  have ns: "\<not> stops_at [''+CSQ: 20,99''] 0" by code_simp
  have e: "\<forall>i < length (without_echo ''AT+CSQ'' (map snd ?arrived)).
            \<not> stops_at (without_echo ''AT+CSQ'' (map snd ?arrived)) i"
    unfolding ls using ns by simp
  have f: "sendATCommand ''AT+CSQ'' ?w
     = (''+CSQ: 20,99'', Some CommandTimeout,
        quiet\<lparr>reader_in := [Wait 6000, Line (''OK'' @ CRLF)], clock := 10000,
               log := [PortWrite (''AT+CSQ'' @ CRLF), ReaderRead (Wait 3000),
                       ReaderRead (Line (''AT+CSQ'' @ CRLF)), ReaderRead (Wait 2000),
                       ReaderRead (Line (''+CSQ: 20,99'' @ CRLF))]\<rparr>)"
    by code_simp
  have g: "sendATCommand ''AT+CSQ'' ?v
     = (''+CSQ: 20,99'' @ [CHR 0x0A] @ ''OK'', None,
        quiet\<lparr>reader_in := [], clock := 9000,
               log := [PortWrite (''AT+CSQ'' @ CRLF), ReaderRead (Wait 3000),
                       ReaderRead (Line (''+CSQ: 20,99'' @ CRLF)), ReaderRead (Wait 6000),
                       ReaderRead (Line (''OK'' @ CRLF))]\<rparr>)"
    by code_simp
  from a b c d e have hyp: "write_ok ?w \<and> reader_in ?w = timed_lines ?arrived @ ?rest
      \<and> int (sum_list (map fst ?arrived)) < 10000
      \<and> (?rest = [] \<or> (\<exists>later. ?rest = Expired # later)
          \<or> (\<exists>d later. ?rest = Wait d # later
                \<and> 10000 < int (sum_list (map fst ?arrived)) + int d))
      \<and> (\<forall>i < length (without_echo ''AT+CSQ'' (map snd ?arrived)).
            \<not> stops_at (without_echo ''AT+CSQ'' (map snd ?arrived)) i)"
    by (intro conjI)
  from C7_timeout_comes_after_ten_seconds_with_the_partial_text[of ?w ?arrived ?rest "''AT+CSQ''", THEN conjunct1, THEN mp, OF hyp]
  have h: "fst (sendATCommand ''AT+CSQ'' ?w)
      = TrimSpace (kept_text (without_echo ''AT+CSQ'' (map snd ?arrived)))"
    by (rule conjunct1)
  have i: "TrimSpace (kept_text (without_echo ''AT+CSQ'' (map snd ?arrived)))
             = ''+CSQ: 20,99''"
    using h unfolding f fst_conv by (rule sym)
  have j: "fst (snd (sendATCommand ''AT+CSQ'' ?v)) = None" unfolding g by simp
  from C7_timeout_comes_after_ten_seconds_with_the_partial_text[of ?v "[]" "[]" "''AT+CSQ''", THEN conjunct2, THEN conjunct2,
          THEN mp, OF j]
  have k: "clock (snd (snd (sendATCommand ''AT+CSQ'' ?v))) \<le> clock ?v + 10000" .
  from f i g k show ?thesis by (intro conjI)
qed

section \<open>The nested transaction of the listener\<close>

text \<open>
  No goroutine other than the listener receives from \<open>pauseChan\<close>, so once the listener
  itself is at the send of a pause request, no step moves it.
\<close>

lemma c_op_never_receives_pause: "c_op q \<noteq> Some (Recv, pauseChan, q')"
  by (cases q) auto

lemma step_keeps_pause:
  "step s t \<Longrightarrow> listener s = L_cmti_pause \<Longrightarrow> listener t = L_cmti_pause"
proof (induction rule: step.induct)
  case (listener_caller i s d c p' d' q')
  then have "d = Send" "c = pauseChan" by auto
  with listener_caller have "c_op (callers s ! i) = Some (Recv, pauseChan, q')"
    by (cases d') auto
  then show ?case by (simp add: c_op_never_receives_pause)
qed auto

lemma steps_keep_pause:
  "step\<^sup>*\<^sup>* s t \<Longrightarrow> listener s = L_cmti_pause \<Longrightarrow> listener t = L_cmti_pause"
  by (induction rule: rtranclp_induct) (auto simp: step_keeps_pause)

definition before_ack :: "sys \<Rightarrow> bool" where
  "before_ack s = (listener s \<noteq> L_cmti_wait_ack \<and> listener s \<noteq> L_cmti_transaction
                   \<and> listener s \<noteq> L_cmti_resume)"

lemma step_before_ack: "step s t \<Longrightarrow> before_ack s \<Longrightarrow> before_ack t"
proof (induction rule: step.induct)
  case (listener_internal p' s)
  then show ?case by (cases "listener s") (auto simp: before_ack_def)
next
  case (listener_caller i s d c p' d' q')
  show ?case
  proof (cases "listener s = L_cmti_pause")
    case True
    with listener_caller have "d = Send" "c = pauseChan" by auto
    with listener_caller have "c_op (callers s ! i) = Some (Recv, pauseChan, q')"
      by (cases d') auto
    then show ?thesis by (simp add: c_op_never_receives_pause)
  next
    case False
    with listener_caller show ?thesis
      by (cases "listener s") (auto simp: before_ack_def)
  qed
qed (auto simp: before_ack_def)

lemma steps_before_ack: "step\<^sup>*\<^sup>* s t \<Longrightarrow> before_ack s \<Longrightarrow> before_ack t"
  by (induction rule: rtranclp_induct) (auto simp: step_before_ack)

text \<open>
  Claim C2. The claim: when the listener goroutine handles a \<open>+CMTI:\<close> notification and
  issues the nested AT+CMGR transaction, its pause request is acknowledged and the
  transaction proceeds, without a second listener thread. The code does the opposite. In
  every run of the listener goroutine with any number of calling goroutines, the listener
  never gets past the send of the nested pause request: the acknowledgement is never
  received, the transaction and the resume are never reached, and a listener that is at the
  nested send stays there in every later state.
\<close>

theorem C2_nested_pause_is_never_acknowledged:
  "step\<^sup>*\<^sup>* (started n) s \<Longrightarrow>
     listener s \<noteq> L_cmti_wait_ack \<and> listener s \<noteq> L_cmti_transaction
     \<and> listener s \<noteq> L_cmti_resume
     \<and> (listener s = L_cmti_pause \<longrightarrow> (\<forall>t. step\<^sup>*\<^sup>* s t \<longrightarrow> listener t = L_cmti_pause))"
proof -
  assume r: "step\<^sup>*\<^sup>* (started n) s"
  have "before_ack (started n)" by (simp add: before_ack_def started_def)
  with r have "before_ack s" by (rule steps_before_ack)
  then show ?thesis by (auto simp: before_ack_def steps_keep_pause)
qed

theorem C2_nested_pause_is_never_acknowledged_witness:
  "step\<^sup>*\<^sup>* (started 1) \<lparr>listener = L_cmti_pause, callers = [C_idle]\<rparr>
   \<and> step\<^sup>*\<^sup>* \<lparr>listener = L_cmti_pause, callers = [C_idle]\<rparr>
              \<lparr>listener = L_cmti_pause, callers = [C_pause]\<rparr>
   \<and> listener \<lparr>listener = L_cmti_pause, callers = [C_pause]\<rparr> = L_cmti_pause"
proof -
  let ?s0 = "\<lparr>listener = L_select, callers = [C_idle]\<rparr>"
  let ?s1 = "\<lparr>listener = L_poll, callers = [C_idle]\<rparr>"
  let ?s2 = "\<lparr>listener = L_cmti_pause, callers = [C_idle]\<rparr>"
  let ?s3 = "\<lparr>listener = L_cmti_pause, callers = [C_pause]\<rparr>"
  have "step ?s0 (?s0\<lparr>listener := L_poll\<rparr>)" by (rule step.listener_internal) simp
  then have a: "step ?s0 ?s1" by simp
  have "step ?s1 (?s1\<lparr>listener := L_cmti_pause\<rparr>)" by (rule step.listener_internal) simp
  then have b: "step ?s1 ?s2" by simp
  have "step ?s2 (?s2\<lparr>callers := (callers ?s2)[0 := C_pause]\<rparr>)"
    by (rule step.caller_internal) simp_all
  then have c: "step ?s2 ?s3" by simp
  from a b have reach: "step\<^sup>*\<^sup>* (started 1) ?s2" by (simp add: started_def)
  from c have go: "step\<^sup>*\<^sup>* ?s2 ?s3" by blast
  from C2_nested_pause_is_never_acknowledged[OF reach] go
  have "listener ?s3 = L_cmti_pause" by simp
  with reach go show ?thesis by simp
qed

end
